theory Spec2Isabelle
  imports Main "HOL-Library.List_Lexorder"
begin

section \<open>Python values\<close>

text \<open>
  Strings are lists of characters; a \<^typ>\<open>char\<close> stands for the code point of the same
  number, so the model covers the strings over the code points 0 to 255. Exceptions that
  leave a method are values of \<open>error\<close>; a method that can raise returns \<open>error + 'a\<close>.
  \<open>RecursionError\<close> is what the interpreter raises when the nesting of calls exceeds the
  depth that is left to the caller.
\<close>

datatype error = TypeError | KeyError | RecursionError

text \<open>
  A \<open>dict\<close> keeps its keys in insertion order; assigning to a key that is present keeps
  the key's position.
\<close>

type_synonym ('k, 'v) dict = "('k \<times> 'v) list"

definition dict_get :: "('k, 'v) dict \<Rightarrow> 'k \<Rightarrow> 'v option" where
  "dict_get d k = map_of d k"

definition dict_in :: "'k \<Rightarrow> ('k, 'v) dict \<Rightarrow> bool" where
  "dict_in k d = (map_of d k \<noteq> None)"

fun dict_set :: "'k \<Rightarrow> 'v \<Rightarrow> ('k, 'v) dict \<Rightarrow> ('k, 'v) dict" where
  "dict_set k v [] = [(k, v)]"
| "dict_set k v ((k', v') # d) =
     (if k = k' then (k, v) # d else (k', v') # dict_set k v d)"

definition dict_del :: "'k \<Rightarrow> ('k, 'v) dict \<Rightarrow> ('k, 'v) dict" where
  "dict_del k d = filter (\<lambda>kv. fst kv \<noteq> k) d"

subsection \<open>\<open>str.split\<close>, \<open>int\<close> and string comparison\<close>

fun str_split :: "char \<Rightarrow> string \<Rightarrow> string list" where
  "str_split sep [] = [[]]"
| "str_split sep (c # cs) =
     (if c = sep then [] # str_split sep cs
      else (case str_split sep cs of
              [] \<Rightarrow> [[c]]
            | p # ps \<Rightarrow> (c # p) # ps))"

definition is_space :: "char \<Rightarrow> bool" where
  "is_space c = (let n = (of_char c :: nat) in (9 \<le> n \<and> n \<le> 13) \<or> n = 32 \<or> n = 133 \<or> n = 160)"

definition is_digit :: "char \<Rightarrow> bool" where
  "is_digit c = (let n = (of_char c :: nat) in 48 \<le> n \<and> n \<le> 57)"

definition digit_val :: "char \<Rightarrow> int" where
  "digit_val c = int (of_char c) - 48"

text \<open>
  The digits of a decimal literal, where one underscore may stand between two digits.
\<close>

fun digits_value :: "int \<Rightarrow> string \<Rightarrow> int option" where
  "digits_value acc [] = Some acc"
| "digits_value acc (c # cs) =
     (if is_digit c then digits_value (10 * acc + digit_val c) cs
      else if c = CHR ''_'' then
        (case cs of
           [] \<Rightarrow> None
         | d # ds \<Rightarrow> if is_digit d then digits_value acc cs else None)
      else None)"

text \<open>
  \<open>int(s)\<close> for a string: surrounding whitespace is dropped, one sign is allowed, the rest
  is a decimal literal. \<open>None\<close> is \<open>ValueError\<close>. (The interpreter's configurable limit on
  the number of digits of a literal is not part of the model.)
\<close>

definition py_int :: "string \<Rightarrow> int option" where
  "py_int s =
     (let t = rev (dropWhile is_space (rev (dropWhile is_space s)));
          sb = (case t of
                  [] \<Rightarrow> (1, [])
                | c # cs \<Rightarrow> if c = CHR ''+'' then (1, cs)
                            else if c = CHR ''-'' then (- 1, cs)
                            else (1, t))
      in case snd sb of
           [] \<Rightarrow> None
         | c # cs \<Rightarrow> if is_digit c
                     then map_option (\<lambda>n. fst sb * n) (digits_value 0 (snd sb))
                     else None)"

fun str_lt :: "string \<Rightarrow> string \<Rightarrow> bool" where
  "str_lt [] [] = False"
| "str_lt [] (y # ys) = True"
| "str_lt (x # xs) [] = False"
| "str_lt (x # xs) (y # ys) =
     (if x = y then str_lt xs ys else (of_char x :: nat) < of_char y)"

subsection \<open>Rich comparison of ints, strings and tuples\<close>

datatype cmp = Py_EQ | Py_GE | Py_LE | Py_GT | Py_LT

text \<open>The answer of an operator, from whether the left value is smaller and whether both are equal.\<close>

fun cmp_result :: "cmp \<Rightarrow> bool \<Rightarrow> bool \<Rightarrow> bool" where
  "cmp_result Py_EQ lt eq = eq"
| "cmp_result Py_GE lt eq = (\<not> lt)"
| "cmp_result Py_LE lt eq = (lt \<or> eq)"
| "cmp_result Py_GT lt eq = (\<not> lt \<and> \<not> eq)"
| "cmp_result Py_LT lt eq = lt"

text \<open>A component of a version tuple: an \<open>int\<close>, or the text that \<open>int\<close> rejected.\<close>

datatype part = PInt int | PStr string

fun part_richcompare :: "cmp \<Rightarrow> part \<Rightarrow> part \<Rightarrow> error + bool" where
  "part_richcompare op (PInt a) (PInt b) = Inr (cmp_result op (a < b) (a = b))"
| "part_richcompare op (PStr a) (PStr b) = Inr (cmp_result op (str_lt a b) (a = b))"
| "part_richcompare op (PInt a) (PStr b) = (if op = Py_EQ then Inr False else Inl TypeError)"
| "part_richcompare op (PStr a) (PInt b) = (if op = Py_EQ then Inr False else Inl TypeError)"

text \<open>
  Tuples are compared at the first position where the items differ; when one tuple is a
  prefix of the other the lengths decide. Only an ordering of an \<open>int\<close> with a \<open>str\<close>
  raises.
\<close>

fun tuple_richcompare :: "cmp \<Rightarrow> part list \<Rightarrow> part list \<Rightarrow> error + bool" where
  "tuple_richcompare op (x # xs) (y # ys) =
     (if x = y then tuple_richcompare op xs ys
      else if op = Py_EQ then Inr False
      else part_richcompare op x y)"
| "tuple_richcompare op xs ys =
     Inr (cmp_result op (length xs < length ys) (length xs = length ys))"

section \<open>Versions and constraints (stages 3 and 4)\<close>

text \<open>
  \<open>_version_tuple\<close>, \<open>_matches_constraint\<close> and \<open>_find_version\<close> have the same text in
  stage 3 and in stage 4.
\<close>

definition version_part :: "string \<Rightarrow> part" where
  "version_part p = (case py_int p of Some n \<Rightarrow> PInt n | None \<Rightarrow> PStr p)"

definition version_tuple :: "string \<Rightarrow> part list" where
  "version_tuple version =
     foldl (\<lambda>parts p. parts @ [version_part p]) [] (str_split CHR ''.'' version)"

text \<open>
  The rest of the pattern after the operator, \<open>(.+)$\<close>: at least one character, none of
  them a newline, up to the end of the text or to a newline that ends the text.
\<close>

definition dot_plus_end :: "string \<Rightarrow> string option" where
  "dot_plus_end r =
     (if r = [] then None
      else if CHR 0x0A \<notin> set r then Some r
      else if last r = CHR 0x0A \<and> butlast r \<noteq> [] \<and> CHR 0x0A \<notin> set (butlast r)
           then Some (butlast r)
      else None)"

text \<open>
  The optional group tries its alternatives in the order of the pattern and gives way to
  the next one when the rest of the pattern fails; at last the group is left out.
\<close>

fun try_ops :: "string list \<Rightarrow> string \<Rightarrow> (string option \<times> string) option" where
  "try_ops [] c = map_option (\<lambda>t. (None, t)) (dot_plus_end c)"
| "try_ops (op # ops) c =
     (if take (length op) c = op
      then (case dot_plus_end (drop (length op) c) of
              Some t \<Rightarrow> Some (Some op, t)
            | None \<Rightarrow> try_ops ops c)
      else try_ops ops c)"

definition re_match :: "string \<Rightarrow> (string option \<times> string) option" where
  "re_match c = try_ops [''=='', ''>='', ''<='', ''>'', ''<'', ''~=''] c"

definition matches_constraint :: "string \<Rightarrow> string \<Rightarrow> error + bool" where
  "matches_constraint version constraint =
     (case re_match constraint of
        None \<Rightarrow> Inr False
      | Some (g, target) \<Rightarrow>
          (let op = (case g of None \<Rightarrow> ''=='' | Some o1 \<Rightarrow> o1);
               v_tuple = version_tuple version;
               t_tuple = version_tuple target
           in if op = ''=='' then tuple_richcompare Py_EQ v_tuple t_tuple
              else if op = ''>='' then tuple_richcompare Py_GE v_tuple t_tuple
              else if op = ''<='' then tuple_richcompare Py_LE v_tuple t_tuple
              else if op = ''>'' then tuple_richcompare Py_GT v_tuple t_tuple
              else if op = ''<'' then tuple_richcompare Py_LT v_tuple t_tuple
              else if op = ''~='' then
                (case tuple_richcompare Py_GE v_tuple t_tuple of
                   Inl e \<Rightarrow> Inl e
                 | Inr b \<Rightarrow> Inr (b \<and> hd v_tuple = hd t_tuple))
              else Inr False))"


section \<open>The package manager of stage 4\<close>

text \<open>
  A registry entry holds the versions of a package and, for a version, the list of
  \<open>(dep_name, dep_constraint)\<close> pairs; a constraint may be \<open>None\<close>.
\<close>

record pkg_entry =
  versions :: "string list"
  dependencies :: "(string, (string \<times> string option) list) dict"

type_synonym registry_t = "(string, pkg_entry) dict"

record pm =
  packages :: "(string, string) dict"
  registry :: registry_t
  resolved_versions :: "(string, string) dict"

datatype conflict = Conflict (package: string) (required_by: "(string \<times> string) list")

type_synonym requirements_t = "(string, (string \<times> string) list) dict"

definition init :: pm where
  "init = \<lparr>packages = [], registry = [], resolved_versions = []\<rparr>"

subsection \<open>\<open>register_package\<close>\<close>

text \<open>
  \<open>sorted(versions, key=_version_tuple)\<close> is a stable sort that only asks whether one key
  is smaller than another. It is written here as an insertion from the right. On keys that
  \<open><\<close> orders without raising (numeric versions) the result of a stable sort is unique; on
  keys that cannot all be compared the model raises when the insertion meets such a pair.
\<close>

fun insort_version :: "string \<Rightarrow> string list \<Rightarrow> error + string list" where
  "insort_version x [] = Inr [x]"
| "insort_version x (y # ys) =
     (case tuple_richcompare Py_LT (version_tuple y) (version_tuple x) of
        Inl e \<Rightarrow> Inl e
      | Inr False \<Rightarrow> Inr (x # y # ys)
      | Inr True \<Rightarrow>
          (case insort_version x ys of
             Inl e \<Rightarrow> Inl e
           | Inr zs \<Rightarrow> Inr (y # zs)))"

fun sorted_versions :: "string list \<Rightarrow> error + string list" where
  "sorted_versions [] = Inr []"
| "sorted_versions (x # xs) =
     (case sorted_versions xs of
        Inl e \<Rightarrow> Inl e
      | Inr ys \<Rightarrow> insort_version x ys)"

definition register_package ::
  "pm \<Rightarrow> string \<Rightarrow> string list \<Rightarrow> (string, (string \<times> string option) list) dict option
     \<Rightarrow> error + pm" where
  "register_package s name vs deps =
     (case sorted_versions vs of
        Inl e \<Rightarrow> Inl e
      | Inr sorted_vs \<Rightarrow>
          Inr (s\<lparr>registry :=
                  dict_set name
                    \<lparr>versions = sorted_vs,
                     dependencies = (case deps of None \<Rightarrow> [] | Some d \<Rightarrow> d)\<rparr>
                    (registry s)\<rparr>))"

subsection \<open>\<open>_find_version\<close>\<close>

fun matching_versions :: "string list \<Rightarrow> string \<Rightarrow> error + string list" where
  "matching_versions [] c = Inr []"
| "matching_versions (v # vs) c =
     (case matches_constraint v c of
        Inl e \<Rightarrow> Inl e
      | Inr b \<Rightarrow>
          (case matching_versions vs c of
             Inl e \<Rightarrow> Inl e
           | Inr ms \<Rightarrow> Inr (if b then v # ms else ms)))"

definition find_version :: "registry_t \<Rightarrow> string \<Rightarrow> string option \<Rightarrow> error + string option" where
  "find_version reg name constraint =
     (case dict_get reg name of
        None \<Rightarrow> Inr None
      | Some entry \<Rightarrow>
          if versions entry = [] then Inr None
          else (case constraint of
                  None \<Rightarrow> Inr (Some (last (versions entry)))
                | Some c \<Rightarrow>
                    (case matching_versions (versions entry) c of
                       Inl e \<Rightarrow> Inl e
                     | Inr matching \<Rightarrow>
                         Inr (if matching = [] then None else Some (last matching)))))"

subsection \<open>\<open>_collect_requirements\<close>\<close>

text \<open>
  The first argument is the number of nested calls that the interpreter still allows.
  \<open>if constraint:\<close> is false for \<open>None\<close> and for the empty string.
\<close>

definition truthy :: "string option \<Rightarrow> bool" where
  "truthy c = (c \<noteq> None \<and> c \<noteq> Some [])"

definition add_requirement ::
  "string \<Rightarrow> string option \<Rightarrow> string \<Rightarrow> requirements_t \<Rightarrow> requirements_t" where
  "add_requirement name constraint requirer reqs =
     (let reqs1 = (if dict_in name reqs then reqs else dict_set name [] reqs)
      in case constraint of
           None \<Rightarrow> reqs1
         | Some c \<Rightarrow>
             if c = [] then reqs1
             else dict_set name (the (dict_get reqs1 name) @ [(requirer, c)]) reqs1)"

definition deps_of :: "pkg_entry \<Rightarrow> string \<Rightarrow> (string \<times> string option) list" where
  "deps_of entry version =
     (case dict_get (dependencies entry) version of None \<Rightarrow> [] | Some ds \<Rightarrow> ds)"

definition already_required :: "requirements_t \<Rightarrow> string \<Rightarrow> string option \<Rightarrow> bool" where
  "already_required reqs dep_name dep_constraint =
     (let existing = (case dict_get reqs dep_name of None \<Rightarrow> [] | Some rs \<Rightarrow> rs)
      in list_ex (\<lambda>rc. Some (snd rc) = dep_constraint) existing)"

fun collect_requirements ::
  "nat \<Rightarrow> registry_t \<Rightarrow> string \<Rightarrow> string option \<Rightarrow> requirements_t \<Rightarrow> string
     \<Rightarrow> error + requirements_t"
and collect_deps ::
  "nat \<Rightarrow> registry_t \<Rightarrow> (string \<times> string option) list \<Rightarrow> requirements_t \<Rightarrow> string
     \<Rightarrow> error + requirements_t" where
  "collect_requirements 0 reg name constraint reqs requirer = Inl RecursionError"
| "collect_requirements (Suc d) reg name constraint reqs requirer =
     (let reqs2 = add_requirement name constraint requirer reqs
      in case dict_get reg name of
           None \<Rightarrow> Inr reqs2
         | Some entry \<Rightarrow>
             (case find_version reg name constraint of
                Inl e \<Rightarrow> Inl e
              | Inr None \<Rightarrow> Inr reqs2
              | Inr (Some version) \<Rightarrow> collect_deps d reg (deps_of entry version) reqs2 name))"
| "collect_deps d reg [] reqs name = Inr reqs"
| "collect_deps d reg (dep # deps) reqs name =
     (if already_required reqs (fst dep) (snd dep) then collect_deps d reg deps reqs name
      else (case collect_requirements d reg (fst dep) (snd dep) reqs name of
              Inl e \<Rightarrow> Inl e
            | Inr reqs' \<Rightarrow> collect_deps d reg deps reqs' name))"

subsection \<open>Version selection in \<open>install\<close>\<close>

text \<open>\<open>all(...)\<close> over a generator stops at the first constraint that does not match.\<close>

fun all_match :: "string \<Rightarrow> string list \<Rightarrow> error + bool" where
  "all_match version [] = Inr True"
| "all_match version (c # cs) =
     (case matches_constraint version c of
        Inl e \<Rightarrow> Inl e
      | Inr False \<Rightarrow> Inr False
      | Inr True \<Rightarrow> all_match version cs)"

text \<open>The loop over \<open>reversed(versions)\<close>, leaving at the first compatible version.\<close>

fun first_compatible :: "string list \<Rightarrow> string list \<Rightarrow> error + string option" where
  "first_compatible [] cs = Inr None"
| "first_compatible (v # vs) cs =
     (case all_match v cs of
        Inl e \<Rightarrow> Inl e
      | Inr True \<Rightarrow> Inr (Some v)
      | Inr False \<Rightarrow> first_compatible vs cs)"

fun select_versions ::
  "registry_t \<Rightarrow> requirements_t \<Rightarrow> conflict list \<Rightarrow> (string, string) dict
     \<Rightarrow> error + (conflict list \<times> (string, string) dict)" where
  "select_versions reg [] conflicts resolved = Inr (conflicts, resolved)"
| "select_versions reg ((pkg, reqs) # rest) conflicts resolved =
     (case dict_get reg pkg of
        None \<Rightarrow> select_versions reg rest (conflicts @ [Conflict pkg reqs]) resolved
      | Some entry \<Rightarrow>
          (case first_compatible (rev (versions entry)) (map snd reqs) of
             Inl e \<Rightarrow> Inl e
           | Inr None \<Rightarrow> select_versions reg rest (conflicts @ [Conflict pkg reqs]) resolved
           | Inr (Some compatible) \<Rightarrow>
               select_versions reg rest conflicts (dict_set pkg compatible resolved)))"

subsection \<open>\<open>_install_ordered\<close> and \<open>install\<close>\<close>

text \<open>
  The state that the recursion changes: \<open>self._packages\<close>, the list \<open>installed\<close> and the
  set \<open>visiting\<close>.
\<close>

type_synonym ordered_state = "(string, string) dict \<times> string list \<times> string set"

fun install_ordered ::
  "nat \<Rightarrow> registry_t \<Rightarrow> (string, string) dict \<Rightarrow> string \<Rightarrow> ordered_state
     \<Rightarrow> error + (bool \<times> ordered_state)"
and install_deps ::
  "nat \<Rightarrow> registry_t \<Rightarrow> (string, string) dict \<Rightarrow> (string \<times> string option) list
     \<Rightarrow> ordered_state \<Rightarrow> error + (bool \<times> ordered_state)" where
  "install_ordered 0 reg resolved name st = Inl RecursionError"
| "install_ordered (Suc d) reg resolved name st =
     (case st of (pkgs, installed, visiting) \<Rightarrow>
        if dict_in name pkgs then Inr (True, st)
        else if name \<in> visiting then Inr (True, st)
        else (case dict_get reg name of
                None \<Rightarrow> Inr (False, st)
              | Some entry \<Rightarrow>
                  (case dict_get resolved name of
                     None \<Rightarrow> Inr (False, pkgs, installed, insert name visiting)
                   | Some version \<Rightarrow>
                       (case install_deps d reg resolved (deps_of entry version)
                               (pkgs, installed, insert name visiting) of
                          Inl e \<Rightarrow> Inl e
                        | Inr (False, st') \<Rightarrow> Inr (False, st')
                        | Inr (True, pkgs', installed', visiting') \<Rightarrow>
                            Inr (True, dict_set name version pkgs',
                                 installed' @ [name @ ''=='' @ version], visiting')))))"
| "install_deps d reg resolved [] st = Inr (True, st)"
| "install_deps d reg resolved (dep # deps) st =
     (case install_ordered d reg resolved (fst dep) st of
        Inl e \<Rightarrow> Inl e
      | Inr (False, st') \<Rightarrow> Inr (False, st')
      | Inr (True, st') \<Rightarrow> install_deps d reg resolved deps st')"

text \<open>
  \<open>install\<close> returns the manager after the call with \<open>(success, installed, conflicts)\<close>.
  The flag \<open>resolve_conflicts\<close> does not change the result: both of its branches return
  \<open>(False, [], conflicts)\<close>. Every exception of the collection and of the selection is
  raised before the first assignment to \<open>self\<close>; an exception that leaves
  \<open>_install_ordered\<close> is the value \<open>Inl\<close>, which does not carry what was installed up
  to it.
\<close>

definition install ::
  "nat \<Rightarrow> pm \<Rightarrow> string \<Rightarrow> string option \<Rightarrow> bool
     \<Rightarrow> error + (pm \<times> bool \<times> string list \<times> conflict list)" where
  "install limit s name constraint resolve_conflicts =
     (if \<not> dict_in name (registry s) then Inr (s, False, [], [])
      else (case collect_requirements limit (registry s) name constraint [] ''root'' of
              Inl e \<Rightarrow> Inl e
            | Inr requirements \<Rightarrow>
                (case select_versions (registry s) requirements [] [] of
                   Inl e \<Rightarrow> Inl e
                 | Inr (conflicts, resolved) \<Rightarrow>
                     if conflicts \<noteq> [] then
                       (if \<not> resolve_conflicts then Inr (s, False, [], conflicts)
                        else Inr (s, False, [], conflicts))
                     else
                       (case install_ordered limit (registry s) resolved name
                               (packages s, [], {}) of
                          Inl e \<Rightarrow> Inl e
                        | Inr (success, pkgs, installed, visiting) \<Rightarrow>
                            Inr (s\<lparr>packages := pkgs, resolved_versions := resolved\<rparr>,
                                 success, installed, [])))))"

subsection \<open>Lock files and queries\<close>

text \<open>\<open>sorted(self._packages.items())\<close> orders pairs of strings; it cannot raise.\<close>

definition item_lt :: "string \<times> string \<Rightarrow> string \<times> string \<Rightarrow> bool" where
  "item_lt a b = (if fst a = fst b then str_lt (snd a) (snd b) else str_lt (fst a) (fst b))"

fun insort_item :: "string \<times> string \<Rightarrow> (string \<times> string) list \<Rightarrow> (string \<times> string) list" where
  "insort_item x [] = [x]"
| "insort_item x (y # ys) = (if item_lt y x then y # insort_item x ys else x # y # ys)"

definition sorted_items :: "(string \<times> string) list \<Rightarrow> (string \<times> string) list" where
  "sorted_items xs = foldr insort_item xs []"

text \<open>\<open>dict(pairs)\<close> assigns the pairs in their order.\<close>

definition dict_of :: "('k \<times> 'v) list \<Rightarrow> ('k, 'v) dict" where
  "dict_of xs = foldl (\<lambda>d kv. dict_set (fst kv) (snd kv) d) [] xs"

definition generate_lockfile :: "pm \<Rightarrow> (string, string) dict" where
  "generate_lockfile s = dict_of (sorted_items (packages s))"

fun install_from_lockfile :: "pm \<Rightarrow> (string, string) dict \<Rightarrow> pm \<times> bool" where
  "install_from_lockfile s [] = (s, True)"
| "install_from_lockfile s ((name, version) # rest) =
     (if dict_in name (registry s)
      then install_from_lockfile (s\<lparr>packages := dict_set name version (packages s)\<rparr>) rest
      else install_from_lockfile s rest)"

definition is_installed :: "pm \<Rightarrow> string \<Rightarrow> bool" where
  "is_installed s name = dict_in name (packages s)"


definition list_packages :: "pm \<Rightarrow> (string \<times> string) list" where
  "list_packages s = sorted_items (packages s)"


section \<open>The package manager of stage 3\<close>

text \<open>
  Stage 3 installs while it walks: there is no collection of requirements and no map of
  resolved versions. Its registry has the shape of stage 4's.
\<close>

record pm3 =
  s3_packages :: "(string, string) dict"
  s3_registry :: registry_t

type_synonym recursive_state = "(string, string) dict \<times> string list \<times> string set"

fun install_recursive3 ::
  "nat \<Rightarrow> registry_t \<Rightarrow> string \<Rightarrow> string \<Rightarrow> recursive_state
     \<Rightarrow> error + (bool \<times> recursive_state)"
and install_deps3 ::
  "nat \<Rightarrow> registry_t \<Rightarrow> (string \<times> string option) list \<Rightarrow> recursive_state
     \<Rightarrow> error + (bool \<times> recursive_state)" where
  "install_recursive3 0 reg name version st = Inl RecursionError"
| "install_recursive3 (Suc d) reg name version st =
     (case st of (pkgs, installed, visiting) \<Rightarrow>
        if dict_in name pkgs then Inr (True, st)
        else if name \<in> visiting then Inr (False, st)
        else (case dict_get reg name of
                None \<Rightarrow> Inl KeyError
              | Some entry \<Rightarrow>
                  (case install_deps3 d reg (deps_of entry version)
                          (pkgs, installed, insert name visiting) of
                     Inl e \<Rightarrow> Inl e
                   | Inr (False, st') \<Rightarrow> Inr (False, st')
                   | Inr (True, pkgs', installed', visiting') \<Rightarrow>
                       Inr (True, dict_set name version pkgs',
                            installed' @ [name @ ''=='' @ version], visiting'))))"
| "install_deps3 d reg [] st = Inr (True, st)"
| "install_deps3 d reg (dep # deps) st =
     (case find_version reg (fst dep) (snd dep) of
        Inl e \<Rightarrow> Inl e
      | Inr None \<Rightarrow> Inr (False, st)
      | Inr (Some dep_version) \<Rightarrow>
          (case install_recursive3 d reg (fst dep) dep_version st of
             Inl e \<Rightarrow> Inl e
           | Inr (False, st') \<Rightarrow> Inr (False, st')
           | Inr (True, st') \<Rightarrow> install_deps3 d reg deps st'))"

definition install3 ::
  "nat \<Rightarrow> pm3 \<Rightarrow> string \<Rightarrow> string option \<Rightarrow> error + (pm3 \<times> bool \<times> string list)" where
  "install3 limit s name constraint =
     (if \<not> dict_in name (s3_registry s) then Inr (s, False, [])
      else (case find_version (s3_registry s) name constraint of
              Inl e \<Rightarrow> Inl e
            | Inr None \<Rightarrow> Inr (s, False, [])
            | Inr (Some version) \<Rightarrow>
                (case install_recursive3 limit (s3_registry s) name version
                        (s3_packages s, [], {}) of
                   Inl e \<Rightarrow> Inl e
                 | Inr (success, pkgs, installed, visiting) \<Rightarrow>
                     Inr (s\<lparr>s3_packages := pkgs\<rparr>, success, installed))))"

section \<open>The package manager of stage 2\<close>

record pm2 =
  s2_packages :: "(string, string) dict"
  s2_dependencies :: "(string, string list) dict"

definition register_package2 :: "pm2 \<Rightarrow> string \<Rightarrow> string \<Rightarrow> string list option \<Rightarrow> pm2" where
  "register_package2 s name version deps =
     s\<lparr>s2_dependencies :=
         dict_set name (case deps of None \<Rightarrow> [] | Some ds \<Rightarrow> ds) (s2_dependencies s)\<rparr>"

definition get_dependencies :: "pm2 \<Rightarrow> string \<Rightarrow> string list" where
  "get_dependencies s name =
     (case dict_get (s2_dependencies s) name of None \<Rightarrow> [] | Some ds \<Rightarrow> ds)"

type_synonym recursive_state2 = "(string, string) dict \<times> string list \<times> string set"

fun install_recursive2 ::
  "nat \<Rightarrow> (string, string list) dict \<Rightarrow> string \<Rightarrow> string \<Rightarrow> recursive_state2
     \<Rightarrow> error + recursive_state2"
and install_deps2 ::
  "nat \<Rightarrow> (string, string list) dict \<Rightarrow> string list \<Rightarrow> recursive_state2
     \<Rightarrow> error + recursive_state2" where
  "install_recursive2 0 deps name version st = Inl RecursionError"
| "install_recursive2 (Suc d) deps name version st =
     (case st of (pkgs, installed, visiting) \<Rightarrow>
        if dict_in name pkgs \<or> name \<in> visiting then Inr st
        else (case install_deps2 d deps
                      (case dict_get deps name of None \<Rightarrow> [] | Some ds \<Rightarrow> ds)
                      (pkgs, installed, insert name visiting) of
                Inl e \<Rightarrow> Inl e
              | Inr (pkgs', installed', visiting') \<Rightarrow>
                  Inr (dict_set name version pkgs', installed' @ [name], visiting')))"
| "install_deps2 d deps [] st = Inr st"
| "install_deps2 d deps (dep # rest) st =
     (if \<not> dict_in dep (fst st)
      then (case install_recursive2 d deps dep ''latest'' st of
              Inl e \<Rightarrow> Inl e
            | Inr st' \<Rightarrow> install_deps2 d deps rest st')
      else install_deps2 d deps rest st)"

definition install2 :: "nat \<Rightarrow> pm2 \<Rightarrow> string \<Rightarrow> string \<Rightarrow> error + (pm2 \<times> string list)" where
  "install2 limit s name version =
     (if dict_in name (s2_packages s) then Inr (s, [])
      else (case install_recursive2 limit (s2_dependencies s) name version
                    (s2_packages s, [], {}) of
              Inl e \<Rightarrow> Inl e
            | Inr (pkgs, installed, visiting) \<Rightarrow> Inr (s\<lparr>s2_packages := pkgs\<rparr>, installed)))"

text \<open>
  \<open>uninstall\<close> returns \<open>(success, error_message)\<close>. The loop over \<open>self._packages\<close> leaves
  at the first installed package that lists \<open>name\<close> among its dependencies.
\<close>

definition uninstall :: "pm2 \<Rightarrow> string \<Rightarrow> pm2 \<times> bool \<times> string option" where
  "uninstall s name =
     (if \<not> dict_in name (s2_packages s) then (s, False, Some ''Package not installed'')
      else (case find (\<lambda>pkg. name \<in> set (get_dependencies s pkg)) (map fst (s2_packages s)) of
              Some pkg \<Rightarrow>
                (s, False, Some (''Cannot uninstall: '' @ pkg @ '' depends on '' @ name))
            | None \<Rightarrow> (s\<lparr>s2_packages := dict_del name (s2_packages s)\<rparr>, True, None)))"

fun insort_str :: "string \<Rightarrow> string list \<Rightarrow> string list" where
  "insort_str x [] = [x]"
| "insort_str x (y # ys) = (if str_lt y x then y # insort_str x ys else x # y # ys)"

definition sorted_strs :: "string list \<Rightarrow> string list" where
  "sorted_strs xs = foldr insort_str xs []"

definition get_dependents :: "pm2 \<Rightarrow> string \<Rightarrow> string list" where
  "get_dependents s name =
     sorted_strs (filter (\<lambda>pkg. name \<in> set (get_dependencies s pkg)) (map fst (s2_packages s)))"

section \<open>Notions used to state the properties\<close>

text \<open>The rows \<open>requirements.get(p, [])\<close> and the \<open>(package, constraint)\<close> pairs they record.\<close>

definition rows_of :: "requirements_t \<Rightarrow> string \<Rightarrow> (string \<times> string) list" where
  "rows_of reqs p = (case dict_get reqs p of None \<Rightarrow> [] | Some rs \<Rightarrow> rs)"

definition recorded :: "requirements_t \<Rightarrow> (string \<times> string option) set" where
  "recorded reqs = {(p, Some c) | p c. c \<in> snd ` set (rows_of reqs p)}"

text \<open>No constraint text occurs twice among the rows of one package.\<close>

definition rows_distinct :: "requirements_t \<Rightarrow> bool" where
  "rows_distinct reqs = (\<forall>p. distinct (map snd (rows_of reqs p)))"

text \<open>
  A version satisfies a list of constraints when \<open>_matches_constraint\<close> answers \<open>True\<close>
  for each of them. An item of \<open>requirements\<close> is unsatisfiable when its package is not
  registered or none of its published versions satisfies all the constraints of its rows.
\<close>

definition satisfies_all :: "string \<Rightarrow> string list \<Rightarrow> bool" where
  "satisfies_all v cs = list_all (\<lambda>c. matches_constraint v c = Inr True) cs"

definition unsat :: "registry_t \<Rightarrow> string \<times> (string \<times> string) list \<Rightarrow> bool" where
  "unsat reg pr =
     (case dict_get reg (fst pr) of
        None \<Rightarrow> True
      | Some entry \<Rightarrow>
          \<not> list_ex (\<lambda>v. satisfies_all v (map snd (snd pr))) (versions entry))"

text \<open>
  A list of versions in which no version is smaller than one that stands before it, as
  \<open>sorted\<close> leaves it in \<open>register_package\<close>.
\<close>

definition ascending :: "string list \<Rightarrow> bool" where
  "ascending vs =
     sorted_wrt (\<lambda>a b. tuple_richcompare Py_LT (version_tuple b) (version_tuple a) = Inr False) vs"

definition registry_ascending :: "registry_t \<Rightarrow> bool" where
  "registry_ascending reg = list_all (\<lambda>ne. ascending (versions (snd ne))) reg"

text \<open>
  All \<open>(dep_name, dep_constraint)\<close> pairs of a registry; the registries in which each of
  them carries a constraint that \<open>if constraint:\<close> accepts; and a depth of nested calls
  that is enough for such a registry.
\<close>

definition dep_edges :: "registry_t \<Rightarrow> (string \<times> string option) list" where
  "dep_edges reg = concat (map (\<lambda>ne. concat (map snd (dependencies (snd ne)))) reg)"

definition deps_constrained :: "registry_t \<Rightarrow> bool" where
  "deps_constrained reg = list_all (\<lambda>dep. truthy (snd dep)) (dep_edges reg)"

definition depth_bound :: "registry_t \<Rightarrow> nat" where
  "depth_bound reg =
     Suc (max (length (remdups (dep_edges reg))) (length (remdups (map fst reg))))"

text \<open>
  Versions whose components are all integers, constraints whose target is such a version,
  and the registries that hold nothing else; the key by which such versions are ordered.
\<close>

fun is_int :: "part \<Rightarrow> bool" where
  "is_int (PInt n) = True"
| "is_int (PStr s) = False"

fun int_of :: "part \<Rightarrow> int" where
  "int_of (PInt n) = n"
| "int_of (PStr s) = 0"

definition numeric :: "string \<Rightarrow> bool" where
  "numeric v = list_all is_int (version_tuple v)"

definition key :: "string \<Rightarrow> int list" where
  "key v = map int_of (version_tuple v)"

definition numeric_constraint :: "string \<Rightarrow> bool" where
  "numeric_constraint c = (case re_match c of None \<Rightarrow> True | Some gt \<Rightarrow> numeric (snd gt))"

definition constraint_ok :: "string option \<Rightarrow> bool" where
  "constraint_ok oc = (case oc of None \<Rightarrow> False | Some c \<Rightarrow> c \<noteq> [] \<and> numeric_constraint c)"

definition cok :: "string option \<Rightarrow> bool" where
  "cok oc = (case oc of None \<Rightarrow> True | Some c \<Rightarrow> numeric_constraint c)"

definition numeric_registry :: "registry_t \<Rightarrow> bool" where
  "numeric_registry reg =
     (list_all (\<lambda>ne. list_all numeric (versions (snd ne))) reg \<and>
      list_all (\<lambda>dep. constraint_ok (snd dep)) (dep_edges reg))"

definition msat :: "string \<Rightarrow> string \<Rightarrow> bool" where
  "msat v c = (matches_constraint v c = Inr True)"

text \<open>
  The walk from package \<open>n\<close> under the constraint \<open>oc\<close> is complete in \<open>reqs\<close> when the
  dependencies of the version that \<open>_find_version\<close> gives are all keys of \<open>reqs\<close>. During
  the collection this holds for every recorded pair that is not on the stack of calls.
\<close>

definition walked :: "registry_t \<Rightarrow> requirements_t \<Rightarrow> string \<Rightarrow> string option \<Rightarrow> bool" where
  "walked reg reqs n oc =
     (\<forall>e v. dict_get reg n = Some e \<longrightarrow> find_version reg n oc = Inr (Some v) \<longrightarrow>
            fst ` set (deps_of e v) \<subseteq> fst ` set reqs)"

definition walk_inv ::
  "registry_t \<Rightarrow> requirements_t \<Rightarrow> (string \<times> string option) set \<Rightarrow> bool" where
  "walk_inv reg reqs pend =
     (\<forall>x \<in> recorded reqs. x \<in> pend \<or> walked reg reqs (fst x) (snd x))"

definition rows_or_root :: "string \<Rightarrow> requirements_t \<Rightarrow> bool" where
  "rows_or_root root reqs = (\<forall>n \<in> fst ` set reqs. n = root \<or> rows_of reqs n \<noteq> [])"

text \<open>Every dependency of a resolved version is registered and resolved.\<close>

definition closed_under_deps :: "registry_t \<Rightarrow> (string, string) dict \<Rightarrow> bool" where
  "closed_under_deps reg resolved =
     (\<forall>n v e. dict_get resolved n = Some v \<longrightarrow> dict_get reg n = Some e \<longrightarrow>
        (\<forall>dep \<in> set (deps_of e v).
           dict_get reg (fst dep) \<noteq> None \<and> dict_get resolved (fst dep) \<noteq> None))"

section \<open>Example registries\<close>

text \<open>The registry of \<open>test_resolve_conflict_with_compatible_version\<close>.\<close>

definition diamond_registry :: registry_t where
  "diamond_registry =
     [(''base'', \<lparr>versions = [''1.0.0'', ''1.5.0'', ''2.0.0''], dependencies = []\<rparr>),
      (''pkg1'', \<lparr>versions = [''1.0.0''],
                 dependencies = [(''1.0.0'', [(''base'', Some ''>=1.0.0'')])]\<rparr>),
      (''pkg2'', \<lparr>versions = [''1.0.0''],
                 dependencies = [(''1.0.0'', [(''base'', Some ''<=1.5.0'')])]\<rparr>),
      (''app'', \<lparr>versions = [''1.0.0''],
                dependencies = [(''1.0.0'', [(''pkg1'', Some ''>=1.0.0''),
                                             (''pkg2'', Some ''>=1.0.0'')])]\<rparr>)]"

definition diamond_state :: pm where
  "diamond_state = \<lparr>packages = [], registry = diamond_registry, resolved_versions = []\<rparr>"


definition diamond_after :: pm where
  "diamond_after =
     \<lparr>packages = [(''base'', ''1.5.0''), (''pkg1'', ''1.0.0''), (''pkg2'', ''1.0.0''),
                  (''app'', ''1.0.0'')],
      registry = diamond_registry,
      resolved_versions = [(''app'', ''1.0.0''), (''pkg1'', ''1.0.0''), (''base'', ''1.5.0''),
                           (''pkg2'', ''1.0.0'')]\<rparr>"

text \<open>The same shape where \<open>app\<close> names its dependencies without a constraint.\<close>

definition diamond_unconstrained :: pm where
  "diamond_unconstrained =
     \<lparr>packages = [],
      registry =
        [(''base'', \<lparr>versions = [''1.0.0'', ''1.5.0'', ''2.0.0''], dependencies = []\<rparr>),
         (''pkg1'', \<lparr>versions = [''1.0.0''],
                    dependencies = [(''1.0.0'', [(''base'', Some ''>=1.0.0'')])]\<rparr>),
         (''pkg2'', \<lparr>versions = [''1.0.0''],
                    dependencies = [(''1.0.0'', [(''base'', Some ''<=1.5.0'')])]\<rparr>),
         (''app'', \<lparr>versions = [''1.0.0''],
                   dependencies = [(''1.0.0'', [(''pkg1'', None), (''pkg2'', None)])]\<rparr>)],
      resolved_versions = []\<rparr>"

text \<open>Two packages that put the same constraint text on \<open>base\<close>, which has no such version.\<close>

definition memo_state :: pm where
  "memo_state =
     \<lparr>packages = [],
      registry =
        [(''base'', \<lparr>versions = [''1.0.0''], dependencies = []\<rparr>),
         (''pkg1'', \<lparr>versions = [''1.0.0''],
                    dependencies = [(''1.0.0'', [(''base'', Some ''>=2.0.0'')])]\<rparr>),
         (''pkg2'', \<lparr>versions = [''1.0.0''],
                    dependencies = [(''1.0.0'', [(''base'', Some ''>=2.0.0'')])]\<rparr>),
         (''app'', \<lparr>versions = [''1.0.0''],
                   dependencies = [(''1.0.0'', [(''pkg1'', Some ''>=1.0.0''),
                                                (''pkg2'', Some ''>=1.0.0'')])]\<rparr>)],
      resolved_versions = []\<rparr>"

definition memo_requirements :: requirements_t where
  "memo_requirements =
     [(''app'', []),
      (''pkg1'', [(''app'', ''>=1.0.0'')]),
      (''base'', [(''pkg1'', ''>=2.0.0'')]),
      (''pkg2'', [(''app'', ''>=1.0.0'')])]"

text \<open>
  Two unsatisfiable packages: \<open>base\<close>, asked for by \<open>pkg1\<close> and \<open>pkg2\<close> with the same
  text, and \<open>libb\<close>; \<open>liba\<close> between them is satisfiable.
\<close>

definition conflicts_state :: pm where
  "conflicts_state =
     \<lparr>packages = [],
      registry =
        [(''base'', \<lparr>versions = [''1.0.0''], dependencies = []\<rparr>),
         (''liba'', \<lparr>versions = [''1.0.0'', ''2.0.0''], dependencies = []\<rparr>),
         (''libb'', \<lparr>versions = [''1.0.0''], dependencies = []\<rparr>),
         (''pkg1'', \<lparr>versions = [''1.0.0''],
                    dependencies = [(''1.0.0'', [(''base'', Some ''>=2.0.0'')])]\<rparr>),
         (''pkg2'', \<lparr>versions = [''1.0.0''],
                    dependencies = [(''1.0.0'', [(''base'', Some ''>=2.0.0'')])]\<rparr>),
         (''app'', \<lparr>versions = [''1.0.0''],
                   dependencies = [(''1.0.0'', [(''pkg1'', Some ''>=1.0.0''),
                                                (''liba'', Some ''>=1.0.0''),
                                                (''pkg2'', Some ''>=1.0.0''),
                                                (''libb'', Some ''>=2.0.0'')])]\<rparr>)],
      resolved_versions = []\<rparr>"

definition conflicts_requirements :: requirements_t where
  "conflicts_requirements =
     [(''app'', []),
      (''pkg1'', [(''app'', ''>=1.0.0'')]),
      (''base'', [(''pkg1'', ''>=2.0.0'')]),
      (''liba'', [(''app'', ''>=1.0.0'')]),
      (''pkg2'', [(''app'', ''>=1.0.0'')]),
      (''libb'', [(''app'', ''>=2.0.0'')])]"

text \<open>A dependency with the empty string as its constraint.\<close>

definition partial_state :: pm where
  "partial_state =
     \<lparr>packages = [],
      registry =
        [(''a'', \<lparr>versions = [''1.0.0''], dependencies = []\<rparr>),
         (''y'', \<lparr>versions = [''1.0.0''], dependencies = []\<rparr>),
         (''x'', \<lparr>versions = [''1.0.0''],
                 dependencies = [(''1.0.0'', [(''y'', Some ''>=1.0.0'')])]\<rparr>),
         (''app'', \<lparr>versions = [''1.0.0''],
                   dependencies = [(''1.0.0'', [(''a'', Some ''>=1.0.0''), (''x'', Some [])])]\<rparr>)],
      resolved_versions = []\<rparr>"

text \<open>Two packages that depend on each other, with and without constraints.\<close>

definition cycle_registry :: registry_t where
  "cycle_registry =
     [(''a'', \<lparr>versions = [''1.0.0''],
              dependencies = [(''1.0.0'', [(''b'', Some ''>=1.0.0'')])]\<rparr>),
      (''b'', \<lparr>versions = [''1.0.0''],
              dependencies = [(''1.0.0'', [(''a'', Some ''>=1.0.0'')])]\<rparr>)]"

definition cycle_state :: pm where
  "cycle_state = \<lparr>packages = [], registry = cycle_registry, resolved_versions = []\<rparr>"

definition cycle_state3 :: pm3 where
  "cycle_state3 = \<lparr>s3_packages = [], s3_registry = cycle_registry\<rparr>"

definition bare_cycle_registry :: registry_t where
  "bare_cycle_registry =
     [(''a'', \<lparr>versions = [''1.0.0''], dependencies = [(''1.0.0'', [(''b'', None)])]\<rparr>),
      (''b'', \<lparr>versions = [''1.0.0''], dependencies = [(''1.0.0'', [(''a'', None)])]\<rparr>)]"

text \<open>A lock file with an entry for a package that the registry does not know.\<close>

definition lock_state :: pm where
  "lock_state =
     \<lparr>packages = [],
      registry = [(''requests'', \<lparr>versions = [''2.27.0'', ''2.28.0''], dependencies = []\<rparr>)],
      resolved_versions = []\<rparr>"

definition lock_file :: "(string, string) dict" where
  "lock_file = [(''requests'', ''2.27.0''), (''ghost'', ''1.0'')]"

definition ghost_source :: pm where
  "ghost_source =
     \<lparr>packages = [(''ghost'', ''1.0'')],
      registry = [(''ghost'', \<lparr>versions = [''1.0''], dependencies = []\<rparr>)],
      resolved_versions = [(''ghost'', ''1.0'')]\<rparr>"

text \<open>
  A ledger of stage 2: \<open>a\<close> and \<open>b\<close> were installed with the dependency \<open>q\<close>, then \<open>a\<close>
  was registered again with \<open>p\<close> as a further dependency.
\<close>

definition ledger_state :: pm2 where
  "ledger_state =
     \<lparr>s2_packages = [(''q'', ''latest''), (''a'', ''1''), (''b'', ''1'')],
      s2_dependencies = [(''a'', [''q'', ''p'']), (''b'', [''q''])]\<rparr>"

section \<open>Dictionaries\<close>

lemma dict_get_dict_set:
  "dict_get (dict_set k v d) k' = (if k' = k then Some v else dict_get d k')"
  by (induction d) (auto simp: dict_get_def)

lemma dict_in_iff: "dict_in k d \<longleftrightarrow> k \<in> fst ` set d"
  by (simp add: dict_in_def map_of_eq_None_iff)

lemma dict_in_get: "dict_in k d \<longleftrightarrow> dict_get d k \<noteq> None"
  by (simp add: dict_in_def dict_get_def)

lemma keys_dict_set: "fst ` set (dict_set k v d) = insert k (fst ` set d)"
proof (induction d)
  case Nil
  then show ?case by simp
next
  case (Cons a d)
  then show ?case by (cases a) (simp add: insert_commute)
qed

lemma dict_in_dict_set: "dict_in k' (dict_set k v d) \<longleftrightarrow> k' = k \<or> dict_in k' d"
  by (simp add: dict_in_iff keys_dict_set)

lemma distinct_dict_set: "distinct (map fst d) \<Longrightarrow> distinct (map fst (dict_set k v d))"
proof (induction d)
  case Nil
  then show ?case by simp
next
  case (Cons a d)
  have "fst ` set (dict_set k v d) = insert k (fst ` set d)" by (rule keys_dict_set)
  with Cons show ?case by (cases a) auto
qed

lemma dict_get_item: "distinct (map fst d) \<Longrightarrow> (k, v) \<in> set d \<longleftrightarrow> dict_get d k = Some v"
  by (simp add: dict_get_def)

lemma dict_get_Nil: "dict_get [] k = None"
  by (simp add: dict_get_def)

lemma dict_get_Cons: "dict_get ((k, v) # d) k' = (if k' = k then Some v else dict_get d k')"
  by (simp add: dict_get_def)

lemma dict_get_None_iff: "dict_get d k = None \<longleftrightarrow> k \<notin> fst ` set d"
  by (simp add: dict_get_def map_of_eq_None_iff)

lemma dict_set_fresh: "k \<notin> fst ` set d \<Longrightarrow> dict_set k v d = d @ [(k, v)]"
  by (induction d) auto

lemma foldl_dict_set_fresh:
  "distinct (map fst (acc @ xs)) \<Longrightarrow>
   foldl (\<lambda>d kv. dict_set (fst kv) (snd kv) d) acc xs = acc @ xs"
proof (induction xs arbitrary: acc)
  case Nil
  then show ?case by simp
next
  case (Cons x xs)
  have f: "fst x \<notin> fst ` set acc" using Cons.prems by auto
  have "dict_set (fst x) (snd x) acc = acc @ [x]" using dict_set_fresh [OF f] by simp
  moreover have "distinct (map fst ((acc @ [x]) @ xs))" using Cons.prems by simp
  ultimately show ?case using Cons.IH [of "acc @ [x]"] by simp
qed

lemma dict_of_distinct: "distinct (map fst xs) \<Longrightarrow> dict_of xs = xs"
  using foldl_dict_set_fresh [of "[]" xs] by (simp add: dict_of_def)

section \<open>Lock files\<close>

lemma lockfile_fields:
  "snd (install_from_lockfile s lf) = True \<and>
   registry (fst (install_from_lockfile s lf)) = registry s \<and>
   resolved_versions (fst (install_from_lockfile s lf)) = resolved_versions s"
  by (induction s lf rule: install_from_lockfile.induct) auto

lemma lockfile_packages:
  "distinct (map fst lf) \<Longrightarrow>
   dict_get (packages (fst (install_from_lockfile s lf))) n =
     (if dict_in n lf \<and> dict_in n (registry s) then dict_get lf n else dict_get (packages s) n)"
proof (induction s lf rule: install_from_lockfile.induct)
  case (1 s)
  then show ?case by (simp add: dict_in_get dict_get_Nil)
next
  case (2 s name version rest)
  have nr: "dict_get rest name = None" using 2(3) by (simp add: dict_get_None_iff)
  show ?case
  proof (cases "dict_in name (registry s)")
    case True
    with 2 nr show ?thesis
      by (auto simp: dict_get_dict_set dict_in_get dict_get_Cons)
  next
    case False
    with 2 nr show ?thesis
      by (auto simp: dict_in_get dict_get_Cons)
  qed
qed

text \<open>
  Claim C10. For every lock file (a dict, so its names are distinct),
  \<open>install_from_lockfile\<close> returns \<open>True\<close>, leaves the registry alone, and afterwards a
  name has the lock file's version exactly when the lock file holds it and the registry
  knows it; every other name is as it was before, so an entry of an unregistered package
  is skipped without an error.
\<close>

theorem install_from_lockfile_registered_only:
  assumes "distinct (map fst lockfile)"
  shows "snd (install_from_lockfile s lockfile) = True \<and>
         registry (fst (install_from_lockfile s lockfile)) = registry s \<and>
         (\<forall>n. dict_get (packages (fst (install_from_lockfile s lockfile))) n =
               (if dict_in n lockfile \<and> dict_in n (registry s)
                then dict_get lockfile n else dict_get (packages s) n))"
  using lockfile_fields [of s lockfile] lockfile_packages [OF assms, of s] by simp

theorem install_from_lockfile_registered_only_witness:
  "distinct (map fst lock_file) \<and>
   snd (install_from_lockfile lock_state lock_file) = True \<and>
   registry (fst (install_from_lockfile lock_state lock_file)) = registry lock_state \<and>
   (\<forall>n. dict_get (packages (fst (install_from_lockfile lock_state lock_file))) n =
         (if dict_in n lock_file \<and> dict_in n (registry lock_state)
          then dict_get lock_file n else dict_get (packages lock_state) n)) \<and>
   packages (fst (install_from_lockfile lock_state lock_file)) = [(''requests'', ''2.27.0'')]"
proof -
  have h: "distinct (map fst lock_file)" by code_simp
  have e: "packages (fst (install_from_lockfile lock_state lock_file)) = [(''requests'', ''2.27.0'')]"
    by code_simp
  from install_from_lockfile_registered_only [OF h, of lock_state] h e show ?thesis by blast
qed

lemma set_insort_item: "set (insort_item x ys) = insert x (set ys)"
  by (induction ys) auto

lemma set_sorted_items: "set (sorted_items xs) = set xs"
  by (induction xs) (auto simp: sorted_items_def set_insort_item)

lemma distinct_insort_item:
  "distinct (map fst (insort_item x ys)) \<longleftrightarrow> fst x \<notin> fst ` set ys \<and> distinct (map fst ys)"
  by (induction ys) (auto simp: set_insort_item)

lemma distinct_sorted_items: "distinct (map fst xs) \<Longrightarrow> distinct (map fst (sorted_items xs))"
proof (induction xs)
  case Nil
  then show ?case by (simp add: sorted_items_def)
next
  case (Cons x xs)
  have "sorted_items (x # xs) = insort_item x (sorted_items xs)"
    by (simp add: sorted_items_def)
  moreover have "fst x \<notin> fst ` set (sorted_items xs)"
    using Cons.prems by (simp add: set_sorted_items)
  ultimately show ?case using Cons by (simp add: distinct_insort_item)
qed

lemma generate_lockfile_distinct:
  "distinct (map fst (packages s)) \<Longrightarrow> generate_lockfile s = sorted_items (packages s)"
  by (simp add: generate_lockfile_def dict_of_distinct distinct_sorted_items)

lemma dict_get_sorted_items:
  assumes "distinct (map fst xs)"
  shows "dict_get (sorted_items xs) n = dict_get xs n"
proof -
  have "map_of (sorted_items xs) = map_of xs"
    using assms distinct_sorted_items [OF assms] set_sorted_items [of xs]
    by (simp add: map_of_inject_set)
  then show ?thesis by (simp add: dict_get_def)
qed

text \<open>
  Claim C7, as the code has it. When every installed name of the source manager is
  registered in the restoring manager, and that one has nothing installed, then
  \<open>install_from_lockfile\<close> of the source's \<open>generate_lockfile\<close> returns \<open>True\<close> and
  installs the same version for every name: the entries are restored as they were, without
  a new resolution. (An entry of an unregistered name is dropped, see C10.)
\<close>

theorem lockfile_roundtrip_registered:
  assumes "distinct (map fst (packages src))"
      and "list_all (\<lambda>kv. dict_in (fst kv) (registry dst)) (packages src)"
      and "packages dst = []"
  shows "snd (install_from_lockfile dst (generate_lockfile src)) = True \<and>
         (\<forall>n. dict_get (packages (fst (install_from_lockfile dst (generate_lockfile src)))) n =
               dict_get (packages src) n)"
proof -
  let ?lf = "generate_lockfile src"
  have lf: "?lf = sorted_items (packages src)"
    using assms(1) by (rule generate_lockfile_distinct)
  have d: "distinct (map fst ?lf)"
    using assms(1) by (simp add: lf distinct_sorted_items)
  have g: "dict_get ?lf n = dict_get (packages src) n" for n
    using assms(1) by (simp add: lf dict_get_sorted_items)
  have r: "dict_in n (registry dst)" if "dict_in n ?lf" for n
  proof -
    from that obtain v where "(n, v) \<in> set (packages src)"
      by (auto simp: dict_in_iff lf set_sorted_items)
    with assms(2) show ?thesis by (auto simp: list_all_iff)
  qed
  have "dict_get (packages (fst (install_from_lockfile dst ?lf))) n = dict_get (packages src) n"
    for n
  proof (cases "dict_in n ?lf")
    case True
    with r [OF True] lockfile_packages [OF d, of dst n] g [of n] show ?thesis by simp
  next
    case False
    then have "dict_get ?lf n = None" by (simp add: dict_in_get)
    with False lockfile_packages [OF d, of dst n] g [of n] assms(3) show ?thesis
      by (simp add: dict_get_Nil)
  qed
  with lockfile_fields [of dst ?lf] show ?thesis by simp
qed

theorem lockfile_roundtrip_registered_witness:
  "distinct (map fst (packages diamond_after)) \<and>
   list_all (\<lambda>kv. dict_in (fst kv) (registry diamond_state)) (packages diamond_after) \<and>
   packages diamond_state = [] \<and>
   snd (install_from_lockfile diamond_state (generate_lockfile diamond_after)) = True \<and>
   (\<forall>n. dict_get (packages (fst (install_from_lockfile diamond_state
                                     (generate_lockfile diamond_after)))) n =
         dict_get (packages diamond_after) n)"
proof -
  have h1: "distinct (map fst (packages diamond_after))" by code_simp
  have h2: "list_all (\<lambda>kv. dict_in (fst kv) (registry diamond_state)) (packages diamond_after)"
    by code_simp
  have h3: "packages diamond_state = []" by code_simp
  from lockfile_roundtrip_registered [OF h1 h2 h3] h1 h2 h3 show ?thesis by blast
qed

theorem lockfile_drops_unregistered_counterexample:
  "generate_lockfile ghost_source = [(''ghost'', ''1.0'')] \<and>
   install_from_lockfile init (generate_lockfile ghost_source) = (init, True) \<and>
   dict_get (packages ghost_source) ''ghost'' = Some ''1.0'' \<and>
   dict_get (packages (fst (install_from_lockfile init (generate_lockfile ghost_source)))) ''ghost''
     = None"
  by code_simp

section \<open>Version tuples and constraints\<close>

lemma foldl_append_map: "foldl (\<lambda>parts p. parts @ [f p]) acc xs = acc @ map f xs"
  by (induction xs arbitrary: acc) auto

lemma version_tuple_map: "version_tuple v = map version_part (str_split CHR ''.'' v)"
  using foldl_append_map [of version_part "[]" "str_split CHR ''.'' v"]
  by (simp add: version_tuple_def)

text \<open>
  Claim C6, as the code has it. \<open>_version_tuple\<close> never fails: it splits at the dots and
  turns each component into the integer that \<open>int\<close> reads, and keeps the text of a
  component that \<open>int\<close> rejects.
\<close>

theorem version_tuple_keeps_text:
  "version_tuple v =
     map (\<lambda>p. case py_int p of Some n \<Rightarrow> PInt n | None \<Rightarrow> PStr p) (str_split CHR ''.'' v)"
proof -
  have "version_part = (\<lambda>p. case py_int p of Some n \<Rightarrow> PInt n | None \<Rightarrow> PStr p)"
    by (rule ext) (simp add: version_part_def)
  with version_tuple_map [of v] show ?thesis by simp
qed

theorem version_tuple_keeps_text_witness:
  "version_tuple ''1.x'' =
     map (\<lambda>p. case py_int p of Some n \<Rightarrow> PInt n | None \<Rightarrow> PStr p) (str_split CHR ''.'' ''1.x'') \<and>
   version_tuple ''1.x'' = [PInt 1, PStr ''x'']"
proof -
  have "version_tuple ''1.x'' = [PInt 1, PStr ''x'']" by code_simp
  with version_tuple_keeps_text [of "''1.x''"] show ?thesis by blast
qed

theorem non_numeric_component_counterexample:
  "py_int ''x'' = None \<and>
   version_tuple ''1.x'' = [PInt 1, PStr ''x''] \<and>
   matches_constraint ''1.x'' ''==1.x'' = Inr True \<and>
   find_version [(''p'', \<lparr>versions = [''1.x''], dependencies = []\<rparr>)] ''p'' (Some ''==1.x'')
     = Inr (Some ''1.x'')"
  by code_simp

lemma tuple_richcompare_same: "tuple_richcompare op xs xs = Inr (cmp_result op False True)"
  by (induction xs) auto

lemma re_match_eq_target:
  "b \<noteq> [] \<Longrightarrow> CHR 0x0A \<notin> set b \<Longrightarrow> re_match (''=='' @ b) = Some (Some ''=='', b)"
  by (simp add: re_match_def dot_plus_end_def)

lemma matches_eq_same_tuple:
  assumes "version_tuple a = version_tuple b" "b \<noteq> []" "CHR 0x0A \<notin> set b"
  shows "matches_constraint a (''=='' @ b) = Inr True"
  using assms re_match_eq_target [OF assms(2,3)]
  by (simp add: matches_constraint_def tuple_richcompare_same)

text \<open>
  Claim C5, as the code has it. Two version texts whose tuples are identical as
  \<open>_version_tuple\<close> builds them, with no padding (such as 1.2 and 1.02), compare equal, and
  each matches the constraint \<open>==\<close> followed by the other (the texts are not empty and hold
  no newline). A tuple is not padded with zeros: 1.2 and 1.2.0 differ.
\<close>

theorem equal_tuples_match:
  assumes "version_tuple a = version_tuple b"
      and "a \<noteq> []" and "b \<noteq> []"
      and "CHR 0x0A \<notin> set a" and "CHR 0x0A \<notin> set b"
  shows "tuple_richcompare Py_EQ (version_tuple a) (version_tuple b) = Inr True \<and>
         matches_constraint a (''=='' @ b) = Inr True \<and>
         matches_constraint b (''=='' @ a) = Inr True"
  using assms matches_eq_same_tuple [of a b] matches_eq_same_tuple [of b a]
  by (simp add: tuple_richcompare_same)

theorem equal_tuples_match_witness:
  "version_tuple ''1.2'' = version_tuple ''1.02'' \<and>
   tuple_richcompare Py_EQ (version_tuple ''1.2'') (version_tuple ''1.02'') = Inr True \<and>
   matches_constraint ''1.2'' (''=='' @ ''1.02'') = Inr True \<and>
   matches_constraint ''1.02'' (''=='' @ ''1.2'') = Inr True"
proof -
  have h1: "version_tuple ''1.2'' = version_tuple ''1.02''" by code_simp
  have h2: "''1.2'' \<noteq> []" "''1.02'' \<noteq> []" by simp_all
  have h3: "CHR 0x0A \<notin> set ''1.2''" "CHR 0x0A \<notin> set ''1.02''" by simp_all
  from equal_tuples_match [OF h1 h2 h3] h1 show ?thesis by blast
qed

theorem no_padding_counterexample:
  "version_tuple ''1.2'' = [PInt 1, PInt 2] \<and>
   version_tuple ''1.2.0'' = [PInt 1, PInt 2, PInt 0] \<and>
   tuple_richcompare Py_EQ (version_tuple ''1.2'') (version_tuple ''1.2.0'') = Inr False \<and>
   tuple_richcompare Py_LT (version_tuple ''1.2'') (version_tuple ''1.2.0'') = Inr True \<and>
   matches_constraint ''1.2'' ''==1.2.0'' = Inr False \<and>
   matches_constraint ''1.2.0'' ''==1.2'' = Inr False"
  by code_simp

lemma part_richcompare_err: "part_richcompare op x y = Inl e \<Longrightarrow> e = TypeError"
  by (cases x; cases y) (auto split: if_splits)

lemma tuple_richcompare_err: "tuple_richcompare op xs ys = Inl e \<Longrightarrow> e = TypeError"
  by (induction op xs ys rule: tuple_richcompare.induct)
     (auto split: if_splits dest: part_richcompare_err)

lemma matches_constraint_err: "matches_constraint v c = Inl e \<Longrightarrow> e = TypeError"
  by (auto simp: matches_constraint_def Let_def split: option.splits if_splits sum.splits
           dest: tuple_richcompare_err)

lemma matching_versions_err: "matching_versions vs c = Inl e \<Longrightarrow> e = TypeError"
  by (induction vs arbitrary: e) (auto split: sum.splits dest: matches_constraint_err)

lemma find_version_err: "find_version reg n c = Inl e \<Longrightarrow> e = TypeError"
  by (auto simp: find_version_def split: option.splits if_splits sum.splits
           dest: matching_versions_err)

lemma all_match_err: "all_match v cs = Inl e \<Longrightarrow> e = TypeError"
  by (induction cs) (auto split: sum.splits bool.splits dest: matches_constraint_err)

lemma first_compatible_err: "first_compatible vs cs = Inl e \<Longrightarrow> e = TypeError"
  by (induction vs) (auto split: sum.splits bool.splits dest: all_match_err)

lemma select_versions_err: "select_versions reg rs cf res = Inl e \<Longrightarrow> e = TypeError"
proof (induction rs arbitrary: cf res)
  case Nil
  then show ?case by simp
next
  case (Cons pr rest)
  then show ?case
    by (cases pr) (auto split: option.splits sum.splits dest: first_compatible_err)
qed

section \<open>The ledger of stage 2\<close>

lemma set_insort_str: "set (insort_str x ys) = insert x (set ys)"
  by (induction ys) auto

lemma set_sorted_strs: "set (sorted_strs xs) = set xs"
  by (induction xs) (auto simp: sorted_strs_def set_insort_str)

lemma find_filter_hd: "filter P xs \<noteq> [] \<Longrightarrow> find P xs = Some (hd (filter P xs))"
  by (induction xs) auto

text \<open>
  Claim C8, as the code has it in stage 2. When some installed package lists \<open>name\<close>
  among its dependencies, \<open>uninstall name\<close> fails and leaves the ledger unchanged. If
  \<open>name\<close> is installed the message names one dependent, the first in the order of
  installation; if it is not installed the message is "Package not installed".
\<close>

theorem uninstall_blocked:
  assumes "get_dependents s name \<noteq> []"
  shows "fst (uninstall s name) = s \<and> \<not> fst (snd (uninstall s name)) \<and>
         (if dict_in name (s2_packages s)
          then (\<exists>pkg. find (\<lambda>p. name \<in> set (get_dependencies s p)) (map fst (s2_packages s)) = Some pkg \<and>
                      pkg \<in> set (get_dependents s name) \<and>
                      snd (snd (uninstall s name)) =
                        Some (''Cannot uninstall: '' @ pkg @ '' depends on '' @ name))
          else snd (snd (uninstall s name)) = Some ''Package not installed'')"
proof -
  let ?P = "\<lambda>p. name \<in> set (get_dependencies s p)"
  let ?ds = "filter ?P (map fst (s2_packages s))"
  have "get_dependents s name = sorted_strs ?ds"
    by (simp add: get_dependents_def)
  with assms have ne: "?ds \<noteq> []" by (auto simp: sorted_strs_def)
  then have f: "find ?P (map fst (s2_packages s)) = Some (hd ?ds)" by (rule find_filter_hd)
  have m: "hd ?ds \<in> set (get_dependents s name)"
    using ne by (simp add: get_dependents_def set_sorted_strs del: set_filter)
  show ?thesis
  proof (cases "dict_in name (s2_packages s)")
    case True
    with f m show ?thesis by (simp add: uninstall_def)
  next
    case False
    then show ?thesis by (simp add: uninstall_def)
  qed
qed

lemma ledger_reachable:
  "(case install2 10 (register_package2 (register_package2 \<lparr>s2_packages = [], s2_dependencies = []\<rparr>
                        ''a'' ''1'' (Some [''q''])) ''b'' ''1'' (Some [''q''])) ''a'' ''1'' of
      Inl e \<Rightarrow> Inl e
    | Inr (s1, i1) \<Rightarrow>
        (case install2 10 s1 ''b'' ''1'' of
           Inl e \<Rightarrow> Inl e
         | Inr (s2, i2) \<Rightarrow> Inr (register_package2 s2 ''a'' ''1'' (Some [''q'', ''p'']))))
   = Inr ledger_state"
  by code_simp

theorem uninstall_blocked_witness:
  "get_dependents ledger_state ''q'' \<noteq> [] \<and>
   fst (uninstall ledger_state ''q'') = ledger_state \<and>
   \<not> fst (snd (uninstall ledger_state ''q'')) \<and>
   dict_in ''q'' (s2_packages ledger_state) \<and>
   snd (snd (uninstall ledger_state ''q'')) = Some ''Cannot uninstall: a depends on q''"
proof -
  have h1: "get_dependents ledger_state ''q'' \<noteq> []" by code_simp
  have h2: "dict_in ''q'' (s2_packages ledger_state)" by code_simp
  have h3: "snd (snd (uninstall ledger_state ''q'')) = Some ''Cannot uninstall: a depends on q''"
    by code_simp
  from uninstall_blocked [OF h1] h1 h2 h3 show ?thesis by simp
qed

theorem uninstall_names_one_counterexample:
  "get_dependents ledger_state ''q'' = [''a'', ''b''] \<and>
   uninstall ledger_state ''q'' = (ledger_state, False, Some ''Cannot uninstall: a depends on q'') \<and>
   get_dependents ledger_state ''p'' = [''a''] \<and>
   uninstall ledger_state ''p'' = (ledger_state, False, Some ''Package not installed'')"
  by code_simp

section \<open>Version selection\<close>

lemma first_compatible_Some:
  "first_compatible vs cs = Inr (Some v) \<Longrightarrow>
   \<exists>ys zs. vs = ys @ v # zs \<and> all_match v cs = Inr True \<and>
           (\<forall>w \<in> set ys. all_match w cs = Inr False)"
proof (induction vs)
  case Nil
  then show ?case by simp
next
  case (Cons a vs)
  show ?case
  proof (cases "all_match a cs")
    case (Inl e)
    with Cons.prems show ?thesis by simp
  next
    case (Inr b)
    show ?thesis
    proof (cases b)
      case True
      with Inr Cons.prems have "a = v" by simp
      with Inr True show ?thesis by (intro exI [of _ "[]"] exI [of _ vs]) auto
    next
      case False
      with Inr Cons.prems have "first_compatible vs cs = Inr (Some v)" by simp
      from Cons.IH [OF this] obtain ys zs where
        "vs = ys @ v # zs" "all_match v cs = Inr True" "\<forall>w \<in> set ys. all_match w cs = Inr False"
        by blast
      with Inr False show ?thesis by (intro exI [of _ "a # ys"] exI [of _ zs]) auto
    qed
  qed
qed

lemma all_match_True_iff: "all_match v cs = Inr True \<longleftrightarrow> satisfies_all v cs"
proof (induction cs)
  case Nil
  then show ?case by (simp add: satisfies_all_def)
next
  case (Cons c cs)
  show ?case
  proof (cases "matches_constraint v c")
    case (Inl e)
    then show ?thesis by (simp add: satisfies_all_def)
  next
    case (Inr b)
    with Cons show ?thesis by (cases b) (simp_all add: satisfies_all_def)
  qed
qed

lemma first_compatible_None:
  "first_compatible vs cs = Inr None \<Longrightarrow> \<forall>v \<in> set vs. all_match v cs = Inr False"
proof (induction vs)
  case Nil
  then show ?case by simp
next
  case (Cons a vs)
  show ?case
  proof (cases "all_match a cs")
    case (Inl e)
    with Cons.prems show ?thesis by simp
  next
    case (Inr b)
    with Cons show ?thesis by (cases b) simp_all
  qed
qed

text \<open>
  When the loop over the versions returns, it ends without a compatible version exactly
  when no published version satisfies all the constraints.
\<close>

lemma first_compatible_None_iff:
  assumes "first_compatible (rev vs) cs = Inr r"
  shows "r = None \<longleftrightarrow> \<not> list_ex (\<lambda>v. satisfies_all v cs) vs"
proof (cases r)
  case None
  with first_compatible_None [of "rev vs" cs] assms
  have "\<forall>v \<in> set vs. all_match v cs = Inr False" by simp
  then have "\<forall>v \<in> set vs. \<not> satisfies_all v cs"
    by (auto simp: all_match_True_iff [symmetric])
  with None show ?thesis by (simp add: list_ex_iff)
next
  case (Some v)
  with first_compatible_Some [of "rev vs" cs v] assms obtain ys zs where
    "rev vs = ys @ v # zs" "all_match v cs = Inr True" by blast
  then have "v \<in> set (rev vs)" "satisfies_all v cs" by (simp_all add: all_match_True_iff)
  with Some show ?thesis by (auto simp: list_ex_iff)
qed

text \<open>
  One step of the selection loop of \<open>install\<close>: a package that is not registered, or none
  of whose published versions satisfies all its rows, is added to the conflicts and the loop
  goes on with the next package; any other package gets the first compatible version, and
  is not reported.
\<close>

lemma select_ConsE:
  assumes "select_versions reg (pr # rest) cf res = Inr out"
  obtains (conflict) "unsat reg pr"
      "select_versions reg rest (cf @ [Conflict (fst pr) (snd pr)]) res = Inr out"
    | (resolved) e v where "\<not> unsat reg pr" "dict_get reg (fst pr) = Some e"
      "first_compatible (rev (versions e)) (map snd (snd pr)) = Inr (Some v)"
      "select_versions reg rest cf (dict_set (fst pr) v res) = Inr out"
proof (cases "dict_get reg (fst pr)")
  case None
  with assms have "select_versions reg rest (cf @ [Conflict (fst pr) (snd pr)]) res = Inr out"
    by (cases pr) simp
  moreover from None have "unsat reg pr" by (simp add: unsat_def)
  ultimately show ?thesis by (intro conflict) simp_all
next
  case (Some e)
  show ?thesis
  proof (cases "first_compatible (rev (versions e)) (map snd (snd pr))")
    case (Inl err)
    with assms Some show ?thesis by (cases pr) simp
  next
    case (Inr r)
    from first_compatible_None_iff [OF Inr] Some
    have u: "unsat reg pr \<longleftrightarrow> r = None" by (simp add: unsat_def)
    show ?thesis
    proof (cases r)
      case None
      with assms Some Inr have
        "select_versions reg rest (cf @ [Conflict (fst pr) (snd pr)]) res = Inr out"
        by (cases pr) simp
      with u None show ?thesis by (intro conflict) simp_all
    next
      case v: (Some v)
      with assms Some Inr have
        "select_versions reg rest cf (dict_set (fst pr) v res) = Inr out"
        by (cases pr) simp
      with u v Some Inr show ?thesis by (intro resolved [of e v]) simp_all
    qed
  qed
qed

lemma select_conflicts:
  "select_versions reg rs cf res = Inr (cf', res') \<Longrightarrow>
   cf' = cf @ map (\<lambda>pr. Conflict (fst pr) (snd pr)) (filter (unsat reg) rs)"
proof (induction rs arbitrary: cf res)
  case Nil
  then show ?case by simp
next
  case (Cons pr rest)
  from Cons.prems show ?case
  proof (cases rule: select_ConsE)
    case conflict
    from Cons.IH [OF conflict(2)] conflict(1) show ?thesis by simp
  next
    case (resolved e v)
    from Cons.IH [OF resolved(4)] resolved(1) show ?thesis by simp
  qed
qed

lemma select_keeps:
  "select_versions reg rs cf res = Inr (cf', res') \<Longrightarrow> p \<notin> fst ` set rs \<Longrightarrow>
   dict_get res' p = dict_get res p"
proof (induction rs arbitrary: cf res)
  case Nil
  then show ?case by simp
next
  case (Cons pr rest)
  have np: "p \<noteq> fst pr" and nr: "p \<notin> fst ` set rest" using Cons.prems(2) by auto
  from Cons.prems(1) show ?case
  proof (cases rule: select_ConsE)
    case conflict
    from Cons.IH [OF conflict(2) nr] show ?thesis .
  next
    case (resolved e v)
    from Cons.IH [OF resolved(4) nr] np show ?thesis by (simp add: dict_get_dict_set)
  qed
qed

lemma select_resolved:
  "select_versions reg rs cf res = Inr (cf', res') \<Longrightarrow> distinct (map fst rs) \<Longrightarrow>
   pr \<in> set rs \<Longrightarrow> \<not> unsat reg pr \<Longrightarrow>
   \<exists>entry v. dict_get reg (fst pr) = Some entry \<and>
     first_compatible (rev (versions entry)) (map snd (snd pr)) = Inr (Some v) \<and>
     dict_get res' (fst pr) = Some v"
proof (induction rs arbitrary: cf res)
  case Nil
  then show ?case by simp
next
  case (Cons q rest)
  have d: "distinct (map fst rest)" and nq: "fst q \<notin> fst ` set rest"
    using Cons.prems(2) by auto
  from Cons.prems(1) show ?case
  proof (cases rule: select_ConsE)
    case conflict
    with Cons.prems(3,4) have m: "pr \<in> set rest" by auto
    from Cons.IH [OF conflict(2) d m Cons.prems(4)] show ?thesis .
  next
    case (resolved e v)
    show ?thesis
    proof (cases "pr = q")
      case True
      from select_keeps [OF resolved(4) nq] have "dict_get res' (fst q) = Some v"
        by (simp add: dict_get_dict_set)
      with resolved(2,3) True show ?thesis by blast
    next
      case False
      with Cons.prems(3) have m: "pr \<in> set rest" by auto
      from Cons.IH [OF resolved(4) d m Cons.prems(4)] show ?thesis .
    qed
  qed
qed

lemma highest_of_first_compatible:
  assumes fc: "first_compatible (rev vs) cs = Inr (Some v)"
      and asc: "ascending vs"
  shows "v \<in> set vs \<and> all_match v cs = Inr True \<and>
         (\<forall>w \<in> set vs. all_match w cs = Inr True \<longrightarrow>
            tuple_richcompare Py_LT (version_tuple v) (version_tuple w) = Inr False) \<and>
         (\<exists>before after. vs = before @ v # after \<and> (\<forall>w \<in> set after. all_match w cs = Inr False))"
proof -
  from first_compatible_Some [OF fc] obtain ys zs where
    r: "rev vs = ys @ v # zs" and m: "all_match v cs = Inr True"
    and f: "\<forall>w \<in> set ys. all_match w cs = Inr False"
    by blast
  from r have "rev (rev vs) = rev (ys @ v # zs)" by simp
  then have vs: "vs = rev zs @ v # rev ys" by simp
  have hi: "tuple_richcompare Py_LT (version_tuple v) (version_tuple w) = Inr False"
    if "w \<in> set vs" "all_match w cs = Inr True" for w
  proof -
    from that f have "w \<notin> set ys" by auto
    with that(1) vs have "w = v \<or> w \<in> set (rev zs)" by auto
    then show ?thesis
    proof
      assume "w = v"
      then show ?thesis by (simp add: tuple_richcompare_same)
    next
      assume "w \<in> set (rev zs)"
      with asc vs show ?thesis
        by (auto simp: ascending_def sorted_wrt_append)
    qed
  qed
  have "\<exists>before after. vs = before @ v # after \<and> (\<forall>w \<in> set after. all_match w cs = Inr False)"
    using vs f by (intro exI [of _ "rev zs"] exI [of _ "rev ys"]) simp
  with vs m hi show ?thesis by auto
qed

section \<open>Collected requirements\<close>

lemma recorded_iff:
  "(p, dc) \<in> recorded reqs \<longleftrightarrow> (\<exists>c. dc = Some c \<and> c \<in> snd ` set (rows_of reqs p))"
  by (auto simp: recorded_def)

lemma add_requirement_get:
  "dict_get (add_requirement n c r reqs) p =
     (if p = n then Some (rows_of reqs n @ (if truthy c then [(r, the c)] else []))
      else dict_get reqs p)"
  by (auto simp: add_requirement_def rows_of_def truthy_def Let_def dict_get_dict_set dict_in_get
           split: option.splits)

lemma add_requirement_keys:
  "fst ` set (add_requirement n c r reqs) = insert n (fst ` set reqs)"
proof -
  have "p \<in> fst ` set (add_requirement n c r reqs) \<longleftrightarrow> p \<in> insert n (fst ` set reqs)" for p
    using add_requirement_get [of n c r reqs p] dict_get_None_iff [of "add_requirement n c r reqs" p]
      dict_get_None_iff [of reqs p]
    by (auto split: if_splits)
  then show ?thesis by blast
qed

lemma add_requirement_distinct:
  "distinct (map fst reqs) \<Longrightarrow> distinct (map fst (add_requirement n c r reqs))"
  by (auto simp: add_requirement_def Let_def distinct_dict_set split: option.splits)

lemma rows_add:
  "rows_of (add_requirement n c r reqs) p =
     (if p = n then rows_of reqs n @ (if truthy c then [(r, the c)] else []) else rows_of reqs p)"
  using add_requirement_get [of n c r reqs p] by (simp add: rows_of_def)

lemma recorded_add:
  "recorded (add_requirement n c r reqs) = recorded reqs \<union> (if truthy c then {(n, c)} else {})"
proof -
  have "(p, dc) \<in> recorded (add_requirement n c r reqs) \<longleftrightarrow>
        (p, dc) \<in> recorded reqs \<union> (if truthy c then {(n, c)} else {})" for p dc
    by (cases c) (auto simp: recorded_iff rows_add truthy_def)
  then show ?thesis by auto
qed

lemma already_required_iff: "already_required reqs dn dc \<longleftrightarrow> (dn, dc) \<in> recorded reqs"
  by (cases "dict_get reqs dn")
     (auto simp: already_required_def recorded_iff rows_of_def list_ex_iff)

lemma collect_SucE:
  assumes "collect_requirements (Suc d) reg name c reqs requirer = Inr reqs'"
  obtains (stop) "reqs' = add_requirement name c requirer reqs"
      "dict_get reg name = None \<or> find_version reg name c = Inr None"
    | (walk) e v where "dict_get reg name = Some e" "find_version reg name c = Inr (Some v)"
      "collect_deps d reg (deps_of e v) (add_requirement name c requirer reqs) name = Inr reqs'"
  using assms by (auto simp: Let_def split: option.splits sum.splits)

lemma collect_deps_ConsE:
  assumes "collect_deps d reg (dep # deps) reqs name = Inr reqs'"
  obtains (skip) "already_required reqs (fst dep) (snd dep)"
      "collect_deps d reg deps reqs name = Inr reqs'"
    | (call) r1 where "\<not> already_required reqs (fst dep) (snd dep)"
      "collect_requirements d reg (fst dep) (snd dep) reqs name = Inr r1"
      "collect_deps d reg deps r1 name = Inr reqs'"
  using assms by (auto split: if_splits sum.splits)

lemma collect_distinct_keys:
  "collect_requirements d reg name c reqs requirer = Inr reqs' \<Longrightarrow>
     distinct (map fst reqs) \<Longrightarrow> distinct (map fst reqs')"
  "collect_deps d reg deps reqs name = Inr reqs' \<Longrightarrow>
     distinct (map fst reqs) \<Longrightarrow> distinct (map fst reqs')"
proof (induction d reg name c reqs requirer and d reg deps reqs name
       arbitrary: reqs' and reqs' rule: collect_requirements_collect_deps.induct)
  case (1 reg name constraint reqs requirer)
  then show ?case by simp
next
  case (2 d reg name constraint reqs requirer)
  have a: "distinct (map fst (add_requirement name constraint requirer reqs))"
    using 2(3) by (rule add_requirement_distinct)
  from 2(2) show ?case
  proof (cases rule: collect_SucE)
    case stop
    with a show ?thesis by simp
  next
    case (walk e v)
    from 2(1) [OF refl walk(1,2) refl walk(3) a] show ?thesis .
  qed
next
  case (3 d reg reqs name)
  then show ?case by simp
next
  case (4 d reg dep deps reqs name)
  from 4(4) show ?case
  proof (cases rule: collect_deps_ConsE)
    case skip
    from 4(1) [OF skip 4(5)] show ?thesis .
  next
    case (call r1)
    from 4(2) [OF call(1,2) 4(5)] have "distinct (map fst r1)" .
    from 4(3) [OF call(1,2,3) this] show ?thesis .
  qed
qed

lemma rows_distinct_add:
  assumes "rows_distinct reqs" "(n, c) \<notin> recorded reqs"
  shows "rows_distinct (add_requirement n c r reqs)"
proof -
  have "the c \<notin> snd ` set (rows_of reqs n)" if "truthy c"
  proof -
    from that obtain c' where "c = Some c'" by (auto simp: truthy_def)
    with assms(2) show ?thesis by (simp add: recorded_iff)
  qed
  with assms(1) show ?thesis
    by (auto simp: rows_distinct_def rows_add)
qed

lemma collect_rows_distinct:
  "collect_requirements d reg name c reqs requirer = Inr reqs' \<Longrightarrow>
     rows_distinct reqs \<Longrightarrow> (name, c) \<notin> recorded reqs \<Longrightarrow> rows_distinct reqs'"
  "collect_deps d reg deps reqs name = Inr reqs' \<Longrightarrow>
     rows_distinct reqs \<Longrightarrow> rows_distinct reqs'"
proof (induction d reg name c reqs requirer and d reg deps reqs name
       arbitrary: reqs' and reqs' rule: collect_requirements_collect_deps.induct)
  case (1 reg name constraint reqs requirer)
  then show ?case by simp
next
  case (2 d reg name constraint reqs requirer)
  have a: "rows_distinct (add_requirement name constraint requirer reqs)"
    using 2(3,4) by (rule rows_distinct_add)
  from 2(2) show ?case
  proof (cases rule: collect_SucE)
    case stop
    with a show ?thesis by simp
  next
    case (walk e v)
    from 2(1) [OF refl walk(1,2) refl walk(3) a] show ?thesis .
  qed
next
  case (3 d reg reqs name)
  then show ?case by simp
next
  case (4 d reg dep deps reqs name)
  from 4(4) show ?case
  proof (cases rule: collect_deps_ConsE)
    case skip
    from 4(1) [OF skip 4(5)] show ?thesis .
  next
    case (call r1)
    from call(1) have "(fst dep, snd dep) \<notin> recorded reqs" by (simp add: already_required_iff)
    from 4(2) [OF call(1,2) 4(5) this] have "rows_distinct r1" .
    from 4(3) [OF call(1,2,3) this] show ?thesis .
  qed
qed

lemma collect_mono:
  "collect_requirements d reg name c reqs requirer = Inr reqs' \<Longrightarrow>
     recorded reqs \<subseteq> recorded reqs' \<and> fst ` set reqs \<subseteq> fst ` set reqs'"
  "collect_deps d reg deps reqs name = Inr reqs' \<Longrightarrow>
     recorded reqs \<subseteq> recorded reqs' \<and> fst ` set reqs \<subseteq> fst ` set reqs'"
proof (induction d reg name c reqs requirer and d reg deps reqs name
       arbitrary: reqs' and reqs' rule: collect_requirements_collect_deps.induct)
  case (1 reg name constraint reqs requirer)
  then show ?case by simp
next
  case (2 d reg name constraint reqs requirer)
  let ?r2 = "add_requirement name constraint requirer reqs"
  have a1: "recorded reqs \<subseteq> recorded ?r2" by (simp add: recorded_add)
  have a2: "fst ` set reqs \<subseteq> fst ` set ?r2" by (simp add: add_requirement_keys subset_insertI)
  from 2(2) show ?case
  proof (cases rule: collect_SucE)
    case stop
    with a1 a2 show ?thesis by simp
  next
    case (walk e v)
    from 2(1) [OF refl walk(1,2) refl walk(3)]
    have "recorded ?r2 \<subseteq> recorded reqs'" "fst ` set ?r2 \<subseteq> fst ` set reqs'" by simp_all
    with a1 a2 show ?thesis by (meson order_trans)
  qed
next
  case (3 d reg reqs name)
  then show ?case by simp
next
  case (4 d reg dep deps reqs name)
  from 4(4) show ?case
  proof (cases rule: collect_deps_ConsE)
    case skip
    from 4(1) [OF skip] show ?thesis .
  next
    case (call r1)
    from 4(2) [OF call(1,2)]
    have b: "recorded reqs \<subseteq> recorded r1" "fst ` set reqs \<subseteq> fst ` set r1" by simp_all
    from 4(3) [OF call(1,2,3)]
    have "recorded r1 \<subseteq> recorded reqs'" "fst ` set r1 \<subseteq> fst ` set reqs'" by simp_all
    with b show ?thesis by (meson order_trans)
  qed
qed

section \<open>Results of \<open>install\<close>\<close>

lemma install_okE:
  assumes "install limit s name constraint rc = Inr (s', success, installed, conflicts)"
      and "dict_in name (registry s)"
  obtains requirements resolved where
    "collect_requirements limit (registry s) name constraint [] ''root'' = Inr requirements"
    "select_versions (registry s) requirements [] [] = Inr (conflicts, resolved)"
    "conflicts = [] \<longrightarrow> resolved_versions s' = resolved"
    "conflicts \<noteq> [] \<longrightarrow> s' = s \<and> \<not> success \<and> installed = []"
  using assms by (auto simp: install_def split: sum.splits prod.splits if_splits)

lemma diamond_built:
  "(case register_package init ''base'' [''2.0.0'', ''1.0.0'', ''1.5.0''] None of
      Inl e \<Rightarrow> Inl e
    | Inr s1 \<Rightarrow>
        (case register_package s1 ''pkg1'' [''1.0.0'']
                (Some [(''1.0.0'', [(''base'', Some ''>=1.0.0'')])]) of
           Inl e \<Rightarrow> Inl e
         | Inr s2 \<Rightarrow>
             (case register_package s2 ''pkg2'' [''1.0.0'']
                     (Some [(''1.0.0'', [(''base'', Some ''<=1.5.0'')])]) of
                Inl e \<Rightarrow> Inl e
              | Inr s3 \<Rightarrow>
                  register_package s3 ''app'' [''1.0.0'']
                    (Some [(''1.0.0'', [(''pkg1'', Some ''>=1.0.0''),
                                        (''pkg2'', Some ''>=1.0.0'')])]))))
   = Inr diamond_state"
  by code_simp



lemma diamond_unconstrained_install:
  "map_sum id snd (install 10 diamond_unconstrained ''app'' None True) =
     Inr (True, [''base==1.5.0'', ''pkg1==1.0.0'', ''pkg2==1.0.0'', ''app==1.0.0''], [])"
  by code_simp

text \<open>
  Claim C2, as the code has it. A package of the requirements is unsatisfiable
  (\<open>unsat\<close>) when it is not registered or none of its published versions matches every
  constraint collected for it. The conflicts that \<open>install\<close> returns are, in the order of
  the requirements, exactly the unsatisfiable packages: the loop goes on after the first
  failure, and each entry carries every row collected for its package. The collection
  remembers the pair of package and constraint text, not the requirer: no constraint text
  is recorded twice for a package, so the same text coming from a second requirer adds no
  row.
\<close>

theorem install_conflicts_enumerated:
  assumes inst: "install limit s name constraint rc = Inr (s', success, installed, conflicts)"
      and reg: "dict_in name (registry s)"
      and col: "collect_requirements limit (registry s) name constraint [] ''root'' = Inr requirements"
  shows "conflicts =
           map (\<lambda>pr. Conflict (fst pr) (snd pr)) (filter (unsat (registry s)) requirements) \<and>
         rows_distinct requirements"
proof -
  from inst reg col obtain resolved where
    sel: "select_versions (registry s) requirements [] [] = Inr (conflicts, resolved)"
    by (auto elim!: install_okE)
  have "rows_distinct []" by (simp add: rows_distinct_def rows_of_def dict_get_Nil)
  moreover have "(name, constraint) \<notin> recorded []"
    by (simp add: recorded_iff rows_of_def dict_get_Nil)
  ultimately have "rows_distinct requirements"
    using collect_rows_distinct(1) [OF col] by simp
  with select_conflicts [OF sel] show ?thesis by simp
qed

theorem install_conflicts_enumerated_witness:
  "install 10 conflicts_state ''app'' None True =
     Inr (conflicts_state, False, [],
          [Conflict ''base'' [(''pkg1'', ''>=2.0.0'')], Conflict ''libb'' [(''app'', ''>=2.0.0'')]]) \<and>
   dict_in ''app'' (registry conflicts_state) \<and>
   collect_requirements 10 (registry conflicts_state) ''app'' None [] ''root'' =
     Inr conflicts_requirements \<and>
   [Conflict ''base'' [(''pkg1'', ''>=2.0.0'')], Conflict ''libb'' [(''app'', ''>=2.0.0'')]] =
     map (\<lambda>pr. Conflict (fst pr) (snd pr))
       (filter (unsat (registry conflicts_state)) conflicts_requirements) \<and>
   rows_distinct conflicts_requirements \<and>
   filter (unsat (registry conflicts_state)) conflicts_requirements =
     [(''base'', [(''pkg1'', ''>=2.0.0'')]), (''libb'', [(''app'', ''>=2.0.0'')])]"
proof -
  have h1: "install 10 conflicts_state ''app'' None True =
     Inr (conflicts_state, False, [],
          [Conflict ''base'' [(''pkg1'', ''>=2.0.0'')], Conflict ''libb'' [(''app'', ''>=2.0.0'')]])"
    by code_simp
  have h2: "dict_in ''app'' (registry conflicts_state)" by code_simp
  have h3: "collect_requirements 10 (registry conflicts_state) ''app'' None [] ''root'' =
     Inr conflicts_requirements" by code_simp
  have h4: "filter (unsat (registry conflicts_state)) conflicts_requirements =
     [(''base'', [(''pkg1'', ''>=2.0.0'')]), (''libb'', [(''app'', ''>=2.0.0'')])]" by code_simp
  from install_conflicts_enumerated [OF h1 h2 h3] h1 h2 h3 h4 show ?thesis by blast
qed

theorem repeated_constraint_counterexample:
  "dict_get (registry memo_state) ''pkg1'' =
     Some \<lparr>versions = [''1.0.0''],
           dependencies = [(''1.0.0'', [(''base'', Some ''>=2.0.0'')])]\<rparr> \<and>
   dict_get (registry memo_state) ''pkg2'' =
     Some \<lparr>versions = [''1.0.0''],
           dependencies = [(''1.0.0'', [(''base'', Some ''>=2.0.0'')])]\<rparr> \<and>
   install 10 memo_state ''app'' None True =
     Inr (memo_state, False, [], [Conflict ''base'' [(''pkg1'', ''>=2.0.0'')]])"
  by code_simp

text \<open>
  Claim C3, as the code has it. When \<open>install\<close> fails because the root package is unknown
  or because a conflict was found, it returns \<open>False\<close> with an empty list of installed
  packages and leaves the manager exactly as it was. (A failure of \<open>_install_ordered\<close>
  after the resolution is not undone.)
\<close>

theorem install_failure_before_installing:
  assumes "install limit s name constraint rc = Inr (s', success, installed, conflicts)"
      and "\<not> dict_in name (registry s) \<or> conflicts \<noteq> []"
  shows "\<not> success \<and> installed = [] \<and> s' = s"
  using assms by (auto simp: install_def split: sum.splits prod.splits if_splits)

theorem install_failure_before_installing_witness:
  "install 10 memo_state ''app'' None True =
     Inr (memo_state, False, [], [Conflict ''base'' [(''pkg1'', ''>=2.0.0'')]]) \<and>
   [Conflict ''base'' [(''pkg1'', ''>=2.0.0'')]] \<noteq> [] \<and>
   \<not> False \<and> ([] :: string list) = [] \<and> memo_state = memo_state"
proof -
  have h1: "install 10 memo_state ''app'' None True =
     Inr (memo_state, False, [], [Conflict ''base'' [(''pkg1'', ''>=2.0.0'')]])" by code_simp
  have h2: "\<not> dict_in ''app'' (registry memo_state) \<or> [Conflict ''base'' [(''pkg1'', ''>=2.0.0'')]] \<noteq> []"
    by simp
  from install_failure_before_installing [OF h1 h2] h1 show ?thesis by simp
qed

theorem partial_install_counterexample:
  "packages partial_state = [] \<and>
   install 10 partial_state ''app'' None True =
     Inr (partial_state\<lparr>packages := [(''a'', ''1.0.0'')],
                        resolved_versions := [(''app'', ''1.0.0''), (''a'', ''1.0.0''),
                                              (''x'', ''1.0.0'')]\<rparr>,
          False, [''a==1.0.0''], [])"
  by code_simp

text \<open>
  Claim C9, as the code has it. The result of \<open>install\<close> is determined by its arguments,
  the registry and the installed packages: the cached \<open>_resolved_versions\<close> of an earlier
  call has no influence, and neither has the flag \<open>resolve_conflicts\<close>. A non-empty list of
  conflicts is determined by the arguments and the registry alone. (The installed list does
  depend on what earlier calls installed.)
\<close>

theorem install_result_depends_on:
  assumes "registry s = registry t"
  shows "(packages s = packages t \<longrightarrow>
            map_sum id snd (install limit s name constraint rc) =
            map_sum id snd (install limit t name constraint rc)) \<and>
         (\<forall>cf. cf \<noteq> [] \<longrightarrow>
            (\<exists>s' ok inst. install limit s name constraint rc = Inr (s', ok, inst, cf)) \<longrightarrow>
            install limit t name constraint rc = Inr (t, False, [], cf)) \<and>
         install limit s name constraint True = install limit s name constraint False"
  using assms by (auto simp: install_def split: sum.splits prod.splits if_splits)

theorem install_result_depends_on_witness:
  "registry diamond_state = registry (diamond_state\<lparr>resolved_versions := [(''stale'', ''0'')]\<rparr>) \<and>
   packages diamond_state = packages (diamond_state\<lparr>resolved_versions := [(''stale'', ''0'')]\<rparr>) \<and>
   map_sum id snd (install 10 diamond_state ''app'' None True) =
   map_sum id snd (install 10 (diamond_state\<lparr>resolved_versions := [(''stale'', ''0'')]\<rparr>)
                     ''app'' None True)"
proof -
  have h1: "registry diamond_state = registry (diamond_state\<lparr>resolved_versions := [(''stale'', ''0'')]\<rparr>)"
    by simp
  have h2: "packages diamond_state = packages (diamond_state\<lparr>resolved_versions := [(''stale'', ''0'')]\<rparr>)"
    by simp
  from install_result_depends_on [OF h1, of 10 "''app''" None True] h1 h2 show ?thesis by blast
qed

theorem repeated_install_counterexample:
  "install 10 diamond_state ''app'' None True =
     Inr (diamond_after, True,
          [''base==1.5.0'', ''pkg1==1.0.0'', ''pkg2==1.0.0'', ''app==1.0.0''], []) \<and>
   registry diamond_after = registry diamond_state \<and>
   install 10 diamond_after ''app'' None True = Inr (diamond_after, True, [], [])"
  by code_simp

section \<open>Depth of the recursion\<close>

lemma deps_of_edges:
  assumes "dict_get reg name = Some e"
  shows "set (deps_of e v) \<subseteq> set (dep_edges reg)"
proof (cases "dict_get (dependencies e) v")
  case None
  then show ?thesis by (simp add: deps_of_def)
next
  case (Some ds)
  then have "(v, ds) \<in> set (dependencies e)"
    by (auto simp: dict_get_def dest: map_of_SomeD)
  moreover from assms have "(name, e) \<in> set reg"
    by (auto simp: dict_get_def dest: map_of_SomeD)
  ultimately have "set ds \<subseteq> set (dep_edges reg)"
    unfolding dep_edges_def set_concat set_map
    by (intro subsetI UN_I [of "concat (map snd (dependencies e))"] )
       (auto intro!: image_eqI [of _ _ "(name, e)"] bexI [of _ "(v, ds)"])
  with Some show ?thesis by (simp add: deps_of_def)
qed

lemma card_unseen_less:
  assumes "finite E" "x \<in> E" "x \<notin> R"
  shows "card (E - (R \<union> {x})) < card (E - R)"
proof -
  have "E - (R \<union> {x}) \<subset> E - R" using assms by auto
  moreover have "finite (E - R)" using assms(1) by simp
  ultimately show ?thesis by (rule psubset_card_mono [rotated])
qed

lemma card_unseen_mono:
  assumes "finite E" "R \<subseteq> R'"
  shows "card (E - R') \<le> card (E - R)"
  using assms by (intro card_mono) auto

lemma collect_no_recursion_error:
  "card (set (dep_edges reg) - recorded (add_requirement name c requirer reqs)) < d \<Longrightarrow>
     deps_constrained reg \<Longrightarrow>
     collect_requirements d reg name c reqs requirer \<noteq> Inl RecursionError"
  "set deps \<subseteq> set (dep_edges reg) \<Longrightarrow>
     card (set (dep_edges reg) - recorded reqs) \<le> d \<Longrightarrow>
     deps_constrained reg \<Longrightarrow>
     collect_deps d reg deps reqs name \<noteq> Inl RecursionError"
proof (induction d reg name c reqs requirer and d reg deps reqs name
       rule: collect_requirements_collect_deps.induct)
  case (1 reg name constraint reqs requirer)
  then show ?case by simp
next
  case (2 d reg name constraint reqs requirer)
  let ?r2 = "add_requirement name constraint requirer reqs"
  show ?case
  proof (cases "dict_get reg name")
    case None
    then show ?thesis by (simp add: Let_def)
  next
    case (Some e)
    show ?thesis
    proof (cases "find_version reg name constraint")
      case (Inl err)
      with find_version_err [OF Inl] Some show ?thesis by (simp add: Let_def)
    next
      case (Inr ov)
      show ?thesis
      proof (cases ov)
        case None
        with Some Inr show ?thesis by (simp add: Let_def)
      next
        case (Some v)
        have "card (set (dep_edges reg) - recorded ?r2) \<le> d" using 2(2) by simp
        from 2(1) [OF refl \<open>dict_get reg name = Some e\<close> Inr Some deps_of_edges
            [OF \<open>dict_get reg name = Some e\<close>] this 2(3)]
        show ?thesis using \<open>dict_get reg name = Some e\<close> Inr Some by (simp add: Let_def)
      qed
    qed
  qed
next
  case (3 d reg reqs name)
  then show ?case by simp
next
  case (4 d reg dep deps reqs name)
  have sub: "set deps \<subseteq> set (dep_edges reg)" and mem: "dep \<in> set (dep_edges reg)"
    using 4(4) by auto
  show ?case
  proof (cases "already_required reqs (fst dep) (snd dep)")
    case True
    from 4(1) [OF True sub 4(5,6)] True show ?thesis by simp
  next
    case False
    then have nr: "dep \<notin> recorded reqs" by (simp add: already_required_iff)
    have tr: "truthy (snd dep)" using mem 4(6) by (auto simp: deps_constrained_def list_all_iff)
    have "recorded (add_requirement (fst dep) (snd dep) name reqs) = recorded reqs \<union> {dep}"
      using tr by (simp add: recorded_add)
    then have "card (set (dep_edges reg) - recorded (add_requirement (fst dep) (snd dep) name reqs))
               < card (set (dep_edges reg) - recorded reqs)"
      using card_unseen_less [OF _ mem nr] by simp
    with 4(5) have "card (set (dep_edges reg) - recorded (add_requirement (fst dep) (snd dep) name reqs)) < d"
      by simp
    from 4(2) [OF False this 4(6)]
    have ne: "collect_requirements d reg (fst dep) (snd dep) reqs name \<noteq> Inl RecursionError" .
    show ?thesis
    proof (cases "collect_requirements d reg (fst dep) (snd dep) reqs name")
      case (Inl err)
      with ne False show ?thesis by auto
    next
      case (Inr r1)
      from collect_mono(1) [OF Inr] have "recorded reqs \<subseteq> recorded r1" by simp
      from card_unseen_mono [OF _ this, of "set (dep_edges reg)"] 4(5)
      have "card (set (dep_edges reg) - recorded r1) \<le> d" by simp
      from 4(3) [OF False Inr sub this 4(6)] False Inr show ?thesis by simp
    qed
  qed
qed

lemma install_ordered_SucE:
  assumes "install_ordered (Suc d) reg resolved name (pkgs, installed, visiting) = r"
  obtains (present) "dict_in name pkgs \<or> name \<in> visiting" "r = Inr (True, pkgs, installed, visiting)"
    | (unknown) "\<not> dict_in name pkgs" "name \<notin> visiting" "dict_get reg name = None"
        "r = Inr (False, pkgs, installed, visiting)"
    | (unresolved) e where "\<not> dict_in name pkgs" "name \<notin> visiting" "dict_get reg name = Some e"
        "dict_get resolved name = None" "r = Inr (False, pkgs, installed, insert name visiting)"
    | (walk) e version where "\<not> dict_in name pkgs" "name \<notin> visiting" "dict_get reg name = Some e"
        "dict_get resolved name = Some version"
        "r = (case install_deps d reg resolved (deps_of e version)
                     (pkgs, installed, insert name visiting) of
                Inl err \<Rightarrow> Inl err
              | Inr (False, st') \<Rightarrow> Inr (False, st')
              | Inr (True, pkgs', installed', visiting') \<Rightarrow>
                  Inr (True, dict_set name version pkgs',
                       installed' @ [name @ ''=='' @ version], visiting'))"
  using assms [symmetric]
  by (cases "dict_in name pkgs"; cases "name \<in> visiting"; cases "dict_get reg name";
      cases "dict_get resolved name") auto

lemma install_ordered_visiting_mono:
  "install_ordered d reg resolved name st = Inr (b, st') \<Longrightarrow>
     snd (snd st) \<subseteq> snd (snd st')"
  "install_deps d reg resolved deps st = Inr (b, st') \<Longrightarrow>
     snd (snd st) \<subseteq> snd (snd st')"
proof (induction d reg resolved name st and d reg resolved deps st
       arbitrary: b st' and b st' rule: install_ordered_install_deps.induct)
  case (1 reg resolved name st)
  then show ?case by simp
next
  case (2 d reg resolved name st)
  obtain pkgs installed visiting where st: "st = (pkgs, installed, visiting)"
    by (cases st) auto
  from 2(2) [unfolded st] show ?case
  proof (cases rule: install_ordered_SucE)
    case present
    with st show ?thesis by auto
  next
    case unknown
    with st show ?thesis by auto
  next
    case (unresolved e)
    with st show ?thesis by auto
  next
    case (walk e version)
    show ?thesis
    proof (cases "install_deps d reg resolved (deps_of e version) (pkgs, installed, insert name visiting)")
      case (Inl err)
      with walk(5) show ?thesis by simp
    next
      case (Inr res)
      obtain b1 p1 i1 v1 where res: "res = (b1, p1, i1, v1)" by (cases res) auto
      from 2(1) [OF st [symmetric] refl walk(1,2,3,4) Inr [unfolded res]]
      have "insert name visiting \<subseteq> v1" by simp
      with walk(5) Inr res st show ?thesis by (cases b1) auto
    qed
  qed
next
  case (3 d reg resolved st)
  then show ?case by simp
next
  case (4 d reg resolved dep deps st)
  show ?case
  proof (cases "install_ordered d reg resolved (fst dep) st")
    case (Inl err)
    with 4(3) show ?thesis by simp
  next
    case (Inr res)
    obtain b1 st1 where res: "res = (b1, st1)" by (cases res) auto
    from 4(1) [OF Inr [unfolded res]] have m1: "snd (snd st) \<subseteq> snd (snd st1)" .
    show ?thesis
    proof (cases b1)
      case True
      with 4(3) Inr res have "install_deps d reg resolved deps st1 = Inr (b, st')" by simp
      from 4(2) [OF Inr [unfolded res] refl eqTrueI [OF True] this] m1 show ?thesis
        by (meson order_trans)
    next
      case False
      with 4(3) Inr res m1 show ?thesis by auto
    qed
  qed
qed

lemma card_unvisited_less:
  assumes "finite K" "x \<in> K" "x \<notin> V"
  shows "card (K - insert x V) < card (K - V)"
proof -
  have "K - insert x V \<subset> K - V" using assms by auto
  moreover have "finite (K - V)" using assms(1) by simp
  ultimately show ?thesis by (rule psubset_card_mono [rotated])
qed

lemma install_ordered_no_recursion_error:
  "card (fst ` set reg - snd (snd st)) < d \<Longrightarrow>
     install_ordered d reg resolved name st \<noteq> Inl RecursionError"
  "card (fst ` set reg - snd (snd st)) < d \<Longrightarrow>
     install_deps d reg resolved deps st \<noteq> Inl RecursionError"
proof (induction d reg resolved name st and d reg resolved deps st
       rule: install_ordered_install_deps.induct)
  case (1 reg resolved name st)
  then show ?case by simp
next
  case (2 d reg resolved name st)
  obtain pkgs installed visiting where st: "st = (pkgs, installed, visiting)"
    by (cases st) auto
  have "install_ordered (Suc d) reg resolved name (pkgs, installed, visiting) =
        install_ordered (Suc d) reg resolved name st" by (simp add: st)
  then show ?case
  proof (cases rule: install_ordered_SucE)
    case present
    then show ?thesis by auto
  next
    case unknown
    then show ?thesis by auto
  next
    case (unresolved e)
    then show ?thesis by auto
  next
    case (walk e version)
    from walk(3) have "name \<in> fst ` set reg"
      using dict_get_None_iff [of reg name] by auto
    from card_unvisited_less [OF _ this walk(2)] 2(2)
    have "card (fst ` set reg - snd (snd (pkgs, installed, insert name visiting))) < d"
      by (simp add: st)
    from 2(1) [OF st [symmetric] refl walk(1,2,3,4) this]
    have "install_deps d reg resolved (deps_of e version) (pkgs, installed, insert name visiting)
          \<noteq> Inl RecursionError" .
    with walk(5) show ?thesis
      by (auto split: sum.splits prod.splits bool.splits)
  qed
next
  case (3 d reg resolved st)
  then show ?case by simp
next
  case (4 d reg resolved dep deps st)
  from 4(1) [OF 4(3)] have ne: "install_ordered d reg resolved (fst dep) st \<noteq> Inl RecursionError" .
  show ?case
  proof (cases "install_ordered d reg resolved (fst dep) st")
    case (Inl err)
    with ne show ?thesis by auto
  next
    case (Inr res)
    obtain b1 st1 where res: "res = (b1, st1)" by (cases res) auto
    show ?thesis
    proof (cases b1)
      case True
      from install_ordered_visiting_mono(1) [OF Inr [unfolded res]]
      have "fst ` set reg - snd (snd st1) \<subseteq> fst ` set reg - snd (snd st)" by auto
      then have "card (fst ` set reg - snd (snd st1)) \<le> card (fst ` set reg - snd (snd st))"
        by (intro card_mono) auto
      with 4(3) have "card (fst ` set reg - snd (snd st1)) < d" by simp
      from 4(2) [OF Inr [unfolded res] refl eqTrueI [OF True] this] Inr res True show ?thesis by simp
    next
      case False
      with Inr res show ?thesis by simp
    qed
  qed
qed

text \<open>
  In a registry of stage 4 whose dependencies all carry a
  non-empty constraint, cyclic or not, the nesting of calls is bounded by the number of
  distinct dependency pairs and of registered names: with that depth available \<open>install\<close>
  never ends in \<open>RecursionError\<close>.
\<close>

theorem install_never_exhausts_depth:
  assumes dc: "deps_constrained (registry s)"
      and lim: "depth_bound (registry s) \<le> limit"
  shows "install limit s name constraint rc \<noteq> Inl RecursionError"
proof -
  let ?reg = "registry s"
  have e: "card (set (dep_edges ?reg)) < limit" and k: "card (fst ` set ?reg) < limit"
    using lim by (simp_all add: depth_bound_def length_remdups_card_conv [symmetric] del: set_map flip: set_map)
  have "card (set (dep_edges ?reg) - recorded (add_requirement name constraint ''root'' []))
        \<le> card (set (dep_edges ?reg))"
    by (intro card_mono) auto
  with e have "card (set (dep_edges ?reg) - recorded (add_requirement name constraint ''root'' [])) < limit"
    by simp
  from collect_no_recursion_error(1) [OF this dc]
  have c: "collect_requirements limit ?reg name constraint [] ''root'' \<noteq> Inl RecursionError" .
  have o: "install_ordered limit ?reg resolved name (packages s, [], {}) \<noteq> Inl RecursionError"
    for resolved
    using install_ordered_no_recursion_error(1) [of ?reg "(packages s, [], {})" limit resolved name] k
    by simp
  show ?thesis
  proof (cases "dict_in name ?reg")
    case False
    then show ?thesis by (simp add: install_def)
  next
    case True
    show ?thesis
    proof (cases "collect_requirements limit ?reg name constraint [] ''root''")
      case (Inl err)
      with c True show ?thesis by (auto simp: install_def)
    next
      case (Inr requirements)
      show ?thesis
      proof (cases "select_versions ?reg requirements [] []")
        case (Inl err)
        with select_versions_err [OF Inl] True Inr show ?thesis by (simp add: install_def)
      next
        case sel: (Inr cr)
        obtain conflicts resolved where cr: "cr = (conflicts, resolved)" by (cases cr) auto
        show ?thesis
        proof (cases "conflicts = []")
          case False
          with True Inr sel cr show ?thesis by (simp add: install_def)
        next
          case nc: True
          show ?thesis
          proof (cases "install_ordered limit ?reg resolved name (packages s, [], {})")
            case (Inl err)
            with o [of resolved] have "err \<noteq> RecursionError" by auto
            with True Inr sel cr nc Inl show ?thesis by (simp add: install_def)
          next
            case io: (Inr res)
            with True Inr sel cr nc show ?thesis
              by (auto simp: install_def split: prod.splits)
          qed
        qed
      qed
    qed
  qed
qed

theorem install_never_exhausts_depth_witness:
  "deps_constrained (registry cycle_state) \<and>
   depth_bound (registry cycle_state) \<le> 10 \<and>
   install 10 cycle_state ''a'' None True \<noteq> Inl RecursionError \<and>
   install 10 cycle_state ''a'' None True =
     Inr (cycle_state\<lparr>packages := [(''b'', ''1.0.0''), (''a'', ''1.0.0'')],
                      resolved_versions := [(''a'', ''1.0.0''), (''b'', ''1.0.0'')]\<rparr>,
          True, [''b==1.0.0'', ''a==1.0.0''], [])"
proof -
  have h1: "deps_constrained (registry cycle_state)" by code_simp
  have h2: "depth_bound (registry cycle_state) \<le> 10" by code_simp
  have h3: "install 10 cycle_state ''a'' None True =
     Inr (cycle_state\<lparr>packages := [(''b'', ''1.0.0''), (''a'', ''1.0.0'')],
                      resolved_versions := [(''a'', ''1.0.0''), (''b'', ''1.0.0'')]\<rparr>,
          True, [''b==1.0.0'', ''a==1.0.0''], [])" by code_simp
  from install_never_exhausts_depth [OF h1 h2, of "''a''" None True] h1 h2 h3 show ?thesis by blast
qed

theorem stage3_cycle_counterexample:
  "find_version cycle_registry ''a'' (Some ''>=1.0.0'') = Inr (Some ''1.0.0'') \<and>
   find_version cycle_registry ''b'' (Some ''>=1.0.0'') = Inr (Some ''1.0.0'') \<and>
   install3 10 cycle_state3 ''a'' None = Inr (cycle_state3, False, [])"
  by code_simp

lemma bare_cycle_collect:
  "collect_requirements d bare_cycle_registry ''a'' None reqs requirer = Inl RecursionError \<and>
   collect_requirements d bare_cycle_registry ''b'' None reqs requirer = Inl RecursionError"
proof (induction d arbitrary: reqs requirer)
  case 0
  then show ?case by simp
next
  case (Suc d)
  have a: "dict_get bare_cycle_registry ''a'' =
             Some \<lparr>versions = [''1.0.0''], dependencies = [(''1.0.0'', [(''b'', None)])]\<rparr>"
    and b: "dict_get bare_cycle_registry ''b'' =
             Some \<lparr>versions = [''1.0.0''], dependencies = [(''1.0.0'', [(''a'', None)])]\<rparr>"
    by (simp_all add: bare_cycle_registry_def dict_get_def)
  have fa: "find_version bare_cycle_registry ''a'' None = Inr (Some ''1.0.0'')"
    and fb: "find_version bare_cycle_registry ''b'' None = Inr (Some ''1.0.0'')"
    by (simp_all add: find_version_def a b)
  have da: "deps_of \<lparr>versions = [''1.0.0''], dependencies = [(''1.0.0'', [(''b'', None)])]\<rparr> ''1.0.0''
              = [(''b'', None)]"
    and db: "deps_of \<lparr>versions = [''1.0.0''], dependencies = [(''1.0.0'', [(''a'', None)])]\<rparr> ''1.0.0''
              = [(''a'', None)]"
    by (simp_all add: deps_of_def dict_get_def)
  have n: "\<not> already_required r p None" for r p
    by (simp add: already_required_def list_ex_iff)
  have "collect_requirements (Suc d) bare_cycle_registry ''a'' None reqs requirer =
          Inl RecursionError"
    using Suc [of "add_requirement ''a'' None requirer reqs" "''a''"]
    by (simp add: a fa da n Let_def)
  moreover have "collect_requirements (Suc d) bare_cycle_registry ''b'' None reqs requirer =
          Inl RecursionError"
    using Suc [of "add_requirement ''b'' None requirer reqs" "''b''"]
    by (simp add: b fb db n Let_def)
  ultimately show ?case by simp
qed

text \<open>
  Claim C4 fails in stage 4 on a cycle whose dependencies carry no constraint. Register
  \<open>a\<close> 1.0.0 depending on \<open>b\<close> and \<open>b\<close> 1.0.0 depending on \<open>a\<close>, both with the
  constraint \<open>None\<close>: every constraint is satisfiable, \<open>_find_version\<close> finds 1.0.0 for
  both names. \<open>_collect_requirements\<close> records a row only for a truthy constraint, so its
  check of the rows already recorded never stops the walk: whatever depth of nested calls
  is available, \<open>install\<close> of \<open>a\<close> uses it up and ends in \<open>RecursionError\<close>.
\<close>

theorem bare_cycle_exhausts_depth:
  "(case register_package init ''a'' [''1.0.0''] (Some [(''1.0.0'', [(''b'', None)])]) of
      Inl e \<Rightarrow> Inl e
    | Inr s1 \<Rightarrow> register_package s1 ''b'' [''1.0.0''] (Some [(''1.0.0'', [(''a'', None)])]))
     = Inr (init\<lparr>registry := bare_cycle_registry\<rparr>) \<and>
   find_version bare_cycle_registry ''a'' None = Inr (Some ''1.0.0'') \<and>
   find_version bare_cycle_registry ''b'' None = Inr (Some ''1.0.0'') \<and>
   install limit (init\<lparr>registry := bare_cycle_registry\<rparr>) ''a'' None rc = Inl RecursionError \<and>
   install limit \<lparr>packages = pkgs, registry = bare_cycle_registry, resolved_versions = rv\<rparr>
     ''a'' None rc = Inl RecursionError"
proof -
  have built: "(case register_package init ''a'' [''1.0.0''] (Some [(''1.0.0'', [(''b'', None)])]) of
      Inl e \<Rightarrow> Inl e
    | Inr s1 \<Rightarrow> register_package s1 ''b'' [''1.0.0''] (Some [(''1.0.0'', [(''a'', None)])]))
     = Inr (init\<lparr>registry := bare_cycle_registry\<rparr>)"
    by code_simp
  have fa: "find_version bare_cycle_registry ''a'' None = Inr (Some ''1.0.0'')"
    and fb: "find_version bare_cycle_registry ''b'' None = Inr (Some ''1.0.0'')"
    by (simp_all add: find_version_def bare_cycle_registry_def dict_get_def)
  have reg: "dict_in ''a'' bare_cycle_registry"
    by (simp add: bare_cycle_registry_def dict_in_def)
  have col: "collect_requirements limit bare_cycle_registry ''a'' None [] ''root'' =
               Inl RecursionError"
    using bare_cycle_collect [of limit "[]" "''root''"] by simp
  have i1: "install limit (init\<lparr>registry := bare_cycle_registry\<rparr>) ''a'' None rc =
              Inl RecursionError"
    using reg col by (simp add: install_def)
  have i2: "install limit \<lparr>packages = pkgs, registry = bare_cycle_registry,
                            resolved_versions = rv\<rparr> ''a'' None rc = Inl RecursionError"
    using reg col by (simp add: install_def)
  from built fa fb i1 i2 show ?thesis by simp
qed

section \<open>Numeric versions\<close>

lemma tuple_richcompare_ints:
  "list_all is_int xs \<Longrightarrow> list_all is_int ys \<Longrightarrow>
   tuple_richcompare op xs ys =
     Inr (cmp_result op (map int_of xs < map int_of ys) (map int_of xs = map int_of ys))"
proof (induction xs arbitrary: ys)
  case Nil
  then show ?case by (cases ys; cases op) auto
next
  case (Cons x xs)
  show ?case
  proof (cases ys)
    case Nil
    then show ?thesis by (cases op) auto
  next
    case (Cons y ys')
    obtain a b where x: "x = PInt a" and y: "y = PInt b"
      using Cons.prems Cons by (cases x; cases y) auto
    show ?thesis
    proof (cases "a = b")
      case True
      with Cons.IH [of ys'] Cons.prems Cons x y show ?thesis by simp
    next
      case False
      with Cons x y show ?thesis by (cases op) auto
    qed
  qed
qed

lemma version_tuple_nonempty: "version_tuple v \<noteq> []"
proof -
  have "str_split c s \<noteq> []" for c s by (induction s) (auto split: list.splits)
  then show ?thesis by (simp add: version_tuple_map)
qed

lemma key_nonempty: "key v \<noteq> []"
  by (simp add: key_def version_tuple_nonempty)

lemma hd_key: "numeric v \<Longrightarrow> numeric t \<Longrightarrow> hd (version_tuple v) = hd (version_tuple t) \<longleftrightarrow> hd (key v) = hd (key t)"
proof -
  assume a: "numeric v" "numeric t"
  obtain x xs where v: "version_tuple v = x # xs" using version_tuple_nonempty [of v] by (cases "version_tuple v") auto
  obtain y ys where t: "version_tuple t = y # ys" using version_tuple_nonempty [of t] by (cases "version_tuple t") auto
  from a v t show ?thesis by (cases x; cases y) (auto simp: numeric_def key_def)
qed

lemma hd_mono: "xs \<le> ys \<Longrightarrow> xs \<noteq> [] \<Longrightarrow> ys \<noteq> [] \<Longrightarrow> hd xs \<le> (hd ys :: int)"
  by (cases xs; cases ys) auto

lemma compare_numeric:
  "numeric v \<Longrightarrow> numeric t \<Longrightarrow>
   tuple_richcompare op (version_tuple v) (version_tuple t) =
     Inr (cmp_result op (key v < key t) (key v = key t))"
  by (simp add: numeric_def key_def tuple_richcompare_ints)

lemma matches_numeric:
  assumes "numeric v" "numeric_constraint c"
  shows "matches_constraint v c = Inr (msat v c)"
proof (cases "re_match c")
  case None
  then show ?thesis by (simp add: msat_def matches_constraint_def)
next
  case (Some gt)
  obtain g t where gt: "gt = (g, t)" by (cases gt) auto
  from assms(2) Some gt have t: "numeric t" by (simp add: numeric_constraint_def)
  show ?thesis
    unfolding msat_def matches_constraint_def
    by (simp add: Some gt Let_def compare_numeric [OF assms(1) t])
qed

lemma matches_convex:
  assumes n: "numeric v1" "numeric v2" "numeric v3" and c: "numeric_constraint c"
      and le: "key v1 \<le> key v2" "key v2 \<le> key v3"
      and m: "msat v1 c" "msat v3 c"
  shows "msat v2 c"
proof (cases "re_match c")
  case None
  with m show ?thesis by (simp add: msat_def matches_constraint_def)
next
  case (Some gt)
  obtain g t where gt: "gt = (g, t)" by (cases gt) auto
  from c Some gt have t: "numeric t" by (simp add: numeric_constraint_def)
  have h: "hd (key v1) \<le> hd (key v2)" "hd (key v2) \<le> hd (key v3)"
    using le by (simp_all add: hd_mono key_nonempty)
  let ?op = "case g of None \<Rightarrow> ''=='' | Some o1 \<Rightarrow> o1"
  have e: "matches_constraint v c =
     (if ?op = ''=='' then Inr (key v = key t)
      else if ?op = ''>='' then Inr (\<not> key v < key t)
      else if ?op = ''<='' then Inr (key v < key t \<or> key v = key t)
      else if ?op = ''>'' then Inr (\<not> key v < key t \<and> key v \<noteq> key t)
      else if ?op = ''<'' then Inr (key v < key t)
      else if ?op = ''~='' then Inr (\<not> key v < key t \<and> hd (key v) = hd (key t))
      else Inr False)" if "numeric v" for v
    unfolding matches_constraint_def
    by (simp add: Some gt Let_def compare_numeric [OF that t] hd_key [OF that t])
  from m have m1: "matches_constraint v1 c = Inr True" and m3: "matches_constraint v3 c = Inr True"
    by (simp_all add: msat_def)
  show ?thesis
    unfolding msat_def
    using m1 m3 le h
    unfolding e [OF n(1)] e [OF n(2)] e [OF n(3)]
    by (auto split: if_splits)
qed

lemma ascending_sorted:
  assumes "ascending vs" "list_all numeric vs"
  shows "sorted (map key vs)"
proof -
  have "sorted_wrt (\<lambda>a b. key a \<le> key b) vs"
  proof (rule sorted_wrt_mono_rel [OF _ assms(1) [unfolded ascending_def]])
    fix a b
    assume "a \<in> set vs" "b \<in> set vs"
      and "tuple_richcompare Py_LT (version_tuple b) (version_tuple a) = Inr False"
    with assms(2) show "key a \<le> key b"
      by (simp add: list_all_iff compare_numeric)
  qed
  then show ?thesis by (simp add: sorted_wrt_map)
qed

lemma sorted_ascending:
  assumes "sorted (map key vs)" "list_all numeric vs"
  shows "ascending vs"
  unfolding ascending_def
proof (rule sorted_wrt_mono_rel [of vs "\<lambda>a b. key a \<le> key b"])
  show "sorted_wrt (\<lambda>a b. key a \<le> key b) vs" using assms(1) by (simp add: sorted_wrt_map)
next
  fix a b
  assume "a \<in> set vs" "b \<in> set vs" "key a \<le> key b"
  with assms(2) show "tuple_richcompare Py_LT (version_tuple b) (version_tuple a) = Inr False"
    by (simp add: list_all_iff compare_numeric)
qed

lemma matching_versions_numeric:
  "list_all numeric vs \<Longrightarrow> numeric_constraint c \<Longrightarrow>
   matching_versions vs c = Inr (filter (\<lambda>v. msat v c) vs)"
  by (induction vs) (auto simp: matches_numeric)

lemma all_match_numeric:
  "numeric v \<Longrightarrow> list_all numeric_constraint cs \<Longrightarrow>
   all_match v cs = Inr (list_all (msat v) cs)"
  by (induction cs) (auto simp: matches_numeric split: bool.splits)

lemma first_compatible_numeric:
  "list_all numeric vs \<Longrightarrow> list_all numeric_constraint cs \<Longrightarrow>
   \<exists>r. first_compatible vs cs = Inr r"
  by (induction vs) (auto simp: all_match_numeric split: bool.splits)

lemma first_compatible_no_rows:
  "first_compatible (rev vs) [] = Inr (Some v) \<Longrightarrow> vs \<noteq> [] \<and> v = last vs"
proof -
  assume a: "first_compatible (rev vs) [] = Inr (Some v)"
  show ?thesis
  proof (cases "rev vs")
    case Nil
    with a show ?thesis by simp
  next
    case (Cons x xs)
    with a have "x = v" by simp
    moreover from Cons have "vs = rev xs @ [x]" by (metis rev.simps(2) rev_rev_ident)
    ultimately show ?thesis by simp
  qed
qed

lemma selected_is_walked:
  assumes fc: "first_compatible (rev vs) cs = Inr (Some v)"
      and ne: "cs \<noteq> []"
      and nv: "list_all numeric vs"
      and nc: "list_all numeric_constraint cs"
      and asc: "ascending vs"
  shows "\<exists>c \<in> set cs. \<exists>ms. matching_versions vs c = Inr ms \<and> ms \<noteq> [] \<and> last ms = v"
proof -
  from highest_of_first_compatible [OF fc asc] obtain before after where
    vs: "vs = before @ v # after" and mv: "all_match v cs = Inr True"
    and fa: "\<forall>w \<in> set after. all_match w cs = Inr False"
    by blast
  have numv: "numeric v" using nv vs by simp
  from mv have sv: "list_all (msat v) cs" by (simp add: all_match_numeric [OF numv nc])
  have "\<exists>c \<in> set cs. filter (\<lambda>w. msat w c) after = []"
  proof (cases after)
    case Nil
    with ne show ?thesis by (cases cs) auto
  next
    case (Cons w0 rest)
    have nw0: "numeric w0" using nv vs Cons by simp
    from fa Cons have "all_match w0 cs = Inr False" by simp
    then have "\<not> list_all (msat w0) cs" by (simp add: all_match_numeric [OF nw0 nc])
    then obtain c0 where c0: "c0 \<in> set cs" "\<not> msat w0 c0" by (auto simp: list_all_iff)
    from c0(1) nc have ncc: "numeric_constraint c0" by (simp add: list_all_iff)
    from c0(1) sv have svc: "msat v c0" by (simp add: list_all_iff)
    have srt: "sorted (map key (before @ v # w0 # rest))"
      using ascending_sorted [OF asc nv] vs Cons by simp
    have "\<not> msat w c0" if "w \<in> set rest" for w
    proof
      assume mw: "msat w c0"
      have nw: "numeric w" using nv vs Cons that by (simp add: list_all_iff)
      from srt that have "key v \<le> key w0" "key w0 \<le> key w"
        by (auto simp: sorted_append)
      from matches_convex [OF numv nw0 nw ncc this svc mw] c0(2) show False by simp
    qed
    with c0 Cons show ?thesis by (auto simp: filter_empty_conv)
  qed
  then obtain c where c: "c \<in> set cs" "filter (\<lambda>w. msat w c) after = []" by blast
  from c(1) nc have ncc: "numeric_constraint c" by (simp add: list_all_iff)
  from c(1) sv have "msat v c" by (simp add: list_all_iff)
  with c(2) vs have "filter (\<lambda>w. msat w c) vs = filter (\<lambda>w. msat w c) before @ [v]" by simp
  with matching_versions_numeric [OF nv ncc]
  have "matching_versions vs c = Inr (filter (\<lambda>w. msat w c) before @ [v])" by simp
  with c(1) show ?thesis
    by (intro bexI [of _ c] exI [of _ "filter (\<lambda>w. msat w c) before @ [v]"]) simp_all
qed

lemma find_version_Some_numeric:
  assumes "dict_get reg n = Some e" "matching_versions (versions e) c = Inr ms" "ms \<noteq> []"
  shows "find_version reg n (Some c) = Inr (Some (last ms))"
proof -
  from assms(2,3) have "versions e \<noteq> []" by auto
  with assms show ?thesis by (simp add: find_version_def)
qed

lemma find_version_None_last:
  assumes "dict_get reg n = Some e" "versions e \<noteq> []"
  shows "find_version reg n None = Inr (Some (last (versions e)))"
  using assms by (simp add: find_version_def)

lemma insort_version_numeric:
  "numeric x \<Longrightarrow> list_all numeric ys \<Longrightarrow> sorted (map key ys) \<Longrightarrow>
   \<exists>zs. insort_version x ys = Inr zs \<and> set zs = insert x (set ys) \<and> sorted (map key zs)"
proof (induction ys)
  case Nil
  then show ?case by simp
next
  case (Cons y ys)
  have c: "tuple_richcompare Py_LT (version_tuple y) (version_tuple x) = Inr (key y < key x)"
    using Cons.prems by (simp add: compare_numeric)
  show ?case
  proof (cases "key y < key x")
    case True
    from Cons obtain zs where zs: "insort_version x ys = Inr zs" "set zs = insert x (set ys)"
      "sorted (map key zs)" by auto
    have "\<forall>z \<in> set zs. key y \<le> key z" using zs(2) True Cons.prems(3) by auto
    with zs c True show ?thesis by auto
  next
    case False
    then have "key x \<le> key y" by simp
    with Cons.prems(3) have "sorted (map key (x # y # ys))" by auto
    with c False show ?thesis by auto
  qed
qed

lemma sorted_versions_numeric:
  "list_all numeric vs \<Longrightarrow>
   \<exists>ys. sorted_versions vs = Inr ys \<and> set ys = set vs \<and> sorted (map key ys)"
proof (induction vs)
  case Nil
  then show ?case by simp
next
  case (Cons x vs)
  then obtain ys where ys: "sorted_versions vs = Inr ys" "set ys = set vs" "sorted (map key ys)"
    by auto
  have "list_all numeric ys" using Cons.prems ys(2) by (simp add: list_all_iff)
  from insort_version_numeric [OF _ this ys(3), of x] Cons.prems ys show ?case by auto
qed

lemma list_all_dict_set:
  "list_all P d \<Longrightarrow> P (k, v) \<Longrightarrow> list_all P (dict_set k v d)"
  by (induction d) auto

lemma register_package_ascending:
  assumes "list_all numeric vs" "registry_ascending (registry s)"
  shows "\<exists>s'. register_package s name vs deps = Inr s' \<and> registry_ascending (registry s') \<and>
              packages s' = packages s"
proof -
  from sorted_versions_numeric [OF assms(1)] obtain ys where
    ys: "sorted_versions vs = Inr ys" "set ys = set vs" "sorted (map key ys)" by blast
  have "list_all numeric ys" using assms(1) ys(2) by (simp add: list_all_iff)
  from sorted_ascending [OF ys(3) this] have "ascending ys" .
  with assms(2) ys(1) show ?thesis
    by (simp add: register_package_def registry_ascending_def list_all_dict_set)
qed

lemma numeric_registry_versions:
  "numeric_registry reg \<Longrightarrow> dict_get reg n = Some e \<Longrightarrow> list_all numeric (versions e)"
proof -
  assume a: "numeric_registry reg" "dict_get reg n = Some e"
  from a(2) have "(n, e) \<in> set reg" by (auto simp: dict_get_def dest: map_of_SomeD)
  with a(1) show ?thesis by (auto simp: numeric_registry_def list_all_iff)
qed

lemma numeric_registry_edge:
  "numeric_registry reg \<Longrightarrow> dep \<in> set (dep_edges reg) \<Longrightarrow> constraint_ok (snd dep)"
  by (auto simp: numeric_registry_def list_all_iff)

lemma constraint_ok_truthy: "constraint_ok oc \<Longrightarrow> truthy oc"
  by (auto simp: constraint_ok_def truthy_def split: option.splits)

lemma constraint_ok_cok: "constraint_ok oc \<Longrightarrow> cok oc"
  by (auto simp: constraint_ok_def cok_def split: option.splits)

lemma numeric_registry_constrained: "numeric_registry reg \<Longrightarrow> deps_constrained reg"
  by (auto simp: numeric_registry_def deps_constrained_def list_all_iff constraint_ok_truthy)

lemma find_version_numeric:
  assumes "numeric_registry reg" "cok oc"
  shows "\<exists>r. find_version reg n oc = Inr r"
proof (cases "dict_get reg n")
  case None
  then show ?thesis by (simp add: find_version_def)
next
  case (Some e)
  from numeric_registry_versions [OF assms(1) Some] have nv: "list_all numeric (versions e)" .
  show ?thesis
  proof (cases oc)
    case None
    with Some show ?thesis by (simp add: find_version_def)
  next
    case (Some c)
    with assms(2) have "numeric_constraint c" by (simp add: cok_def)
    from matching_versions_numeric [OF nv this] Some \<open>dict_get reg n = Some e\<close>
    show ?thesis by (simp add: find_version_def)
  qed
qed

lemma collect_numeric_err:
  "collect_requirements d reg name c reqs requirer = Inl err \<Longrightarrow>
     numeric_registry reg \<Longrightarrow> cok c \<Longrightarrow> err = RecursionError"
  "collect_deps d reg deps reqs name = Inl err \<Longrightarrow>
     numeric_registry reg \<Longrightarrow> set deps \<subseteq> set (dep_edges reg) \<Longrightarrow> err = RecursionError"
proof (induction d reg name c reqs requirer and d reg deps reqs name
       rule: collect_requirements_collect_deps.induct)
  case (1 reg name constraint reqs requirer)
  then show ?case by simp
next
  case (2 d reg name constraint reqs requirer)
  from find_version_numeric [OF 2(3,4)] obtain r where r: "find_version reg name constraint = Inr r"
    by blast
  show ?case
  proof (cases "dict_get reg name")
    case None
    with 2(2) show ?thesis by (simp add: Let_def)
  next
    case (Some e)
    show ?thesis
    proof (cases r)
      case None
      with 2(2) Some r show ?thesis by (simp add: Let_def)
    next
      case v: (Some v)
      from 2(2) Some r v have
        "collect_deps d reg (deps_of e v) (add_requirement name constraint requirer reqs) name = Inl err"
        by (simp add: Let_def)
      from 2(1) [OF refl Some r v this 2(3) deps_of_edges [OF Some]] show ?thesis .
    qed
  qed
next
  case (3 d reg reqs name)
  then show ?case by simp
next
  case (4 d reg dep deps reqs name)
  have sub: "set deps \<subseteq> set (dep_edges reg)" and mem: "dep \<in> set (dep_edges reg)"
    using 4(6) by auto
  show ?case
  proof (cases "already_required reqs (fst dep) (snd dep)")
    case True
    with 4(4) have "collect_deps d reg deps reqs name = Inl err" by simp
    from 4(1) [OF True this 4(5) sub] show ?thesis .
  next
    case False
    have ck: "cok (snd dep)" using numeric_registry_edge [OF 4(5) mem] by (rule constraint_ok_cok)
    show ?thesis
    proof (cases "collect_requirements d reg (fst dep) (snd dep) reqs name")
      case (Inl e1)
      with 4(4) False have "e1 = err" by simp
      with 4(2) [OF False _ 4(5) ck] Inl show ?thesis by simp
    next
      case (Inr r1)
      with 4(4) False have "collect_deps d reg deps r1 name = Inl err" by simp
      from 4(3) [OF False Inr this 4(5) sub] show ?thesis .
    qed
  qed
qed

lemma select_numeric:
  assumes "numeric_registry reg"
  shows "list_all (\<lambda>pr. list_all numeric_constraint (map snd (snd pr))) rs \<Longrightarrow>
         \<exists>r. select_versions reg rs cf res = Inr r"
proof (induction rs arbitrary: cf res)
  case Nil
  then show ?case by simp
next
  case (Cons pr rest)
  obtain p rows where pr: "pr = (p, rows)" by (cases pr) auto
  from Cons.prems pr have nc: "list_all numeric_constraint (map snd rows)"
    and rest: "list_all (\<lambda>pr. list_all numeric_constraint (map snd (snd pr))) rest"
    by simp_all
  show ?case
  proof (cases "dict_get reg p")
    case None
    with Cons.IH [OF rest] pr show ?thesis by simp
  next
    case (Some e)
    from numeric_registry_versions [OF assms Some] have "list_all numeric (rev (versions e))"
      by simp
    from first_compatible_numeric [OF this nc] obtain r where
      "first_compatible (rev (versions e)) (map snd rows) = Inr r" by blast
    with Cons.IH [OF rest] pr Some show ?thesis by (cases r) simp_all
  qed
qed

section \<open>The walk reaches what the selection needs\<close>

lemma walked_mono:
  "walked reg reqs n oc \<Longrightarrow> fst ` set reqs \<subseteq> fst ` set reqs' \<Longrightarrow> walked reg reqs' n oc"
  unfolding walked_def by (meson order_trans)

lemma walk_inv_add:
  assumes "walk_inv reg reqs pend"
  shows "walk_inv reg (add_requirement name c r reqs) (insert (name, c) pend)"
  unfolding walk_inv_def
proof
  fix x
  let ?r2 = "add_requirement name c r reqs"
  assume "x \<in> recorded ?r2"
  then have "x \<in> recorded reqs \<or> x = (name, c)"
    by (auto simp: recorded_add split: if_splits)
  then show "x \<in> insert (name, c) pend \<or> walked reg ?r2 (fst x) (snd x)"
  proof
    assume "x \<in> recorded reqs"
    with assms have "x \<in> pend \<or> walked reg reqs (fst x) (snd x)" by (simp add: walk_inv_def)
    moreover have "fst ` set reqs \<subseteq> fst ` set ?r2" by (auto simp: add_requirement_keys)
    ultimately show ?thesis using walked_mono by blast
  next
    assume "x = (name, c)"
    then show ?thesis by simp
  qed
qed

lemma walk_inv_done:
  assumes "walk_inv reg reqs (insert x pend)" "walked reg reqs (fst x) (snd x)"
  shows "walk_inv reg reqs pend"
  using assms unfolding walk_inv_def by auto

lemma recorded_key: "(n, oc) \<in> recorded reqs \<Longrightarrow> n \<in> fst ` set reqs"
proof -
  assume "(n, oc) \<in> recorded reqs"
  then have "rows_of reqs n \<noteq> []" by (auto simp: recorded_iff)
  then have "dict_get reqs n \<noteq> None" by (cases "dict_get reqs n") (auto simp: rows_of_def)
  then show ?thesis by (simp add: dict_get_None_iff)
qed

lemma recorded_Nil: "recorded [] = {}"
  by (auto simp: recorded_def rows_of_def dict_get_Nil)

lemma collect_walked:
  "collect_requirements d reg name c reqs requirer = Inr reqs' \<Longrightarrow> walk_inv reg reqs pend \<Longrightarrow>
     walk_inv reg reqs' pend \<and> walked reg reqs' name c \<and> name \<in> fst ` set reqs'"
  "collect_deps d reg deps reqs name = Inr reqs' \<Longrightarrow> walk_inv reg reqs pend \<Longrightarrow>
     walk_inv reg reqs' pend \<and> fst ` set deps \<subseteq> fst ` set reqs'"
proof (induction d reg name c reqs requirer and d reg deps reqs name
       arbitrary: reqs' pend and reqs' pend rule: collect_requirements_collect_deps.induct)
  case (1 reg name constraint reqs requirer)
  then show ?case by simp
next
  case (2 d reg name constraint reqs requirer)
  let ?r2 = "add_requirement name constraint requirer reqs"
  have i2: "walk_inv reg ?r2 (insert (name, constraint) pend)"
    using 2(3) by (rule walk_inv_add)
  have k2: "name \<in> fst ` set ?r2" by (simp add: add_requirement_keys)
  from 2(2) show ?case
  proof (cases rule: collect_SucE)
    case stop
    from stop(2) have w: "walked reg ?r2 name constraint" by (auto simp: walked_def)
    from walk_inv_done [OF i2] w have "walk_inv reg ?r2 pend" by simp
    with stop(1) w k2 show ?thesis by simp
  next
    case (walk e v)
    from 2(1) [OF refl walk(1,2) refl walk(3) i2]
    have i: "walk_inv reg reqs' (insert (name, constraint) pend)"
      and s: "fst ` set (deps_of e v) \<subseteq> fst ` set reqs'" by simp_all
    from s walk(1,2) have w: "walked reg reqs' name constraint" by (simp add: walked_def)
    from walk_inv_done [OF i] w have "walk_inv reg reqs' pend" by simp
    moreover from collect_mono(2) [OF walk(3)] k2 have "name \<in> fst ` set reqs'" by blast
    ultimately show ?thesis using w by simp
  qed
next
  case (3 d reg reqs name)
  then show ?case by simp
next
  case (4 d reg dep deps reqs name)
  from 4(4) show ?case
  proof (cases rule: collect_deps_ConsE)
    case skip
    from skip(1) have "(fst dep, snd dep) \<in> recorded reqs" by (simp add: already_required_iff)
    then have "fst dep \<in> fst ` set reqs" by (rule recorded_key)
    with collect_mono(2) [OF skip(2)] have "fst dep \<in> fst ` set reqs'" by blast
    with 4(1) [OF skip 4(5)] show ?thesis by simp
  next
    case (call r1)
    from 4(2) [OF call(1,2) 4(5)] have i1: "walk_inv reg r1 pend" and k: "fst dep \<in> fst ` set r1"
      by simp_all
    from collect_mono(2) [OF call(3)] k have "fst dep \<in> fst ` set reqs'" by blast
    with 4(3) [OF call(1,2,3) i1] show ?thesis by simp
  qed
qed

lemma collect_origin:
  "collect_requirements d reg name c reqs requirer = Inr reqs' \<Longrightarrow>
     set (dep_edges reg) \<subseteq> A \<Longrightarrow> recorded reqs \<subseteq> A \<Longrightarrow> (name, c) \<in> A \<or> \<not> truthy c \<Longrightarrow>
     recorded reqs' \<subseteq> A"
  "collect_deps d reg deps reqs name = Inr reqs' \<Longrightarrow>
     set (dep_edges reg) \<subseteq> A \<Longrightarrow> recorded reqs \<subseteq> A \<Longrightarrow> set deps \<subseteq> set (dep_edges reg) \<Longrightarrow>
     recorded reqs' \<subseteq> A"
proof (induction d reg name c reqs requirer and d reg deps reqs name
       arbitrary: reqs' and reqs' rule: collect_requirements_collect_deps.induct)
  case (1 reg name constraint reqs requirer)
  then show ?case by simp
next
  case (2 d reg name constraint reqs requirer)
  let ?r2 = "add_requirement name constraint requirer reqs"
  have a: "recorded ?r2 \<subseteq> A" using 2(4,5) by (auto simp: recorded_add)
  from 2(2) show ?case
  proof (cases rule: collect_SucE)
    case stop
    with a show ?thesis by simp
  next
    case (walk e v)
    from 2(1) [OF refl walk(1,2) refl walk(3) 2(3) a deps_of_edges [OF walk(1)]] show ?thesis .
  qed
next
  case (3 d reg reqs name)
  then show ?case by simp
next
  case (4 d reg dep deps reqs name)
  have sub: "set deps \<subseteq> set (dep_edges reg)" and mem: "dep \<in> set (dep_edges reg)"
    using 4(7) by auto
  from 4(4) show ?case
  proof (cases rule: collect_deps_ConsE)
    case skip
    from 4(1) [OF skip 4(5,6) sub] show ?thesis .
  next
    case (call r1)
    from mem 4(5) have "(fst dep, snd dep) \<in> A" by auto
    from 4(2) [OF call(1,2) 4(5,6)] this have "recorded r1 \<subseteq> A" by simp
    from 4(3) [OF call(1,2,3) 4(5) this sub] show ?thesis .
  qed
qed

lemma rows_or_root_add:
  assumes "rows_or_root root reqs" "truthy c \<or> name = root"
  shows "rows_or_root root (add_requirement name c r reqs)"
  using assms unfolding rows_or_root_def
  by (auto simp: add_requirement_keys rows_add)

lemma collect_rows_or_root:
  "collect_requirements d reg name c reqs requirer = Inr reqs' \<Longrightarrow>
     deps_constrained reg \<Longrightarrow> rows_or_root root reqs \<Longrightarrow> truthy c \<or> name = root \<Longrightarrow>
     rows_or_root root reqs'"
  "collect_deps d reg deps reqs name = Inr reqs' \<Longrightarrow>
     deps_constrained reg \<Longrightarrow> rows_or_root root reqs \<Longrightarrow> set deps \<subseteq> set (dep_edges reg) \<Longrightarrow>
     rows_or_root root reqs'"
proof (induction d reg name c reqs requirer and d reg deps reqs name
       arbitrary: reqs' and reqs' rule: collect_requirements_collect_deps.induct)
  case (1 reg name constraint reqs requirer)
  then show ?case by simp
next
  case (2 d reg name constraint reqs requirer)
  let ?r2 = "add_requirement name constraint requirer reqs"
  have a: "rows_or_root root ?r2" using 2(4,5) by (rule rows_or_root_add)
  from 2(2) show ?case
  proof (cases rule: collect_SucE)
    case stop
    with a show ?thesis by simp
  next
    case (walk e v)
    from 2(1) [OF refl walk(1,2) refl walk(3) 2(3) a deps_of_edges [OF walk(1)]] show ?thesis .
  qed
next
  case (3 d reg reqs name)
  then show ?case by simp
next
  case (4 d reg dep deps reqs name)
  have sub: "set deps \<subseteq> set (dep_edges reg)" and mem: "dep \<in> set (dep_edges reg)"
    using 4(7) by auto
  from 4(4) show ?case
  proof (cases rule: collect_deps_ConsE)
    case skip
    from 4(1) [OF skip 4(5,6) sub] show ?thesis .
  next
    case (call r1)
    from mem 4(5) have "truthy (snd dep)" by (auto simp: deps_constrained_def list_all_iff)
    then have "truthy (snd dep) \<or> fst dep = root" by simp
    from 4(2) [OF call(1,2) 4(5,6) this] have "rows_or_root root r1" .
    from 4(3) [OF call(1,2,3) 4(5) this sub] show ?thesis .
  qed
qed

lemma collect_records:
  assumes "collect_requirements d reg name c reqs requirer = Inr reqs'" "truthy c"
  shows "(name, c) \<in> recorded reqs'"
proof (cases d)
  case 0
  with assms show ?thesis by simp
next
  case (Suc d')
  have a: "(name, c) \<in> recorded (add_requirement name c requirer reqs)"
    using assms(2) by (simp add: recorded_add)
  from assms(1) [unfolded Suc] show ?thesis
  proof (cases rule: collect_SucE)
    case stop
    with a show ?thesis by simp
  next
    case (walk e v)
    from collect_mono(2) [OF walk(3)] a show ?thesis by blast
  qed
qed

lemma select_new_keys:
  assumes "select_versions reg rs cf [] = Inr (cf', res')" "dict_get res' p \<noteq> None"
  shows "p \<in> fst ` set rs"
proof (rule ccontr)
  assume "p \<notin> fst ` set rs"
  from select_keeps [OF assms(1) this] assms(2) show False by (simp add: dict_get_Nil)
qed

section \<open>Success of the resolution\<close>

lemma install_ordered_err:
  "install_ordered d reg resolved name st = Inl err \<Longrightarrow> err = RecursionError"
  "install_deps d reg resolved deps st = Inl err \<Longrightarrow> err = RecursionError"
proof (induction d reg resolved name st and d reg resolved deps st
       rule: install_ordered_install_deps.induct)
  case (1 reg resolved name st)
  then show ?case by simp
next
  case (2 d reg resolved name st)
  obtain pkgs installed visiting where st: "st = (pkgs, installed, visiting)"
    by (cases st) auto
  from 2(2) [unfolded st] show ?case
  proof (cases rule: install_ordered_SucE)
    case (walk e version)
    from walk(5) obtain e1 where
      "install_deps d reg resolved (deps_of e version) (pkgs, installed, insert name visiting) = Inl e1"
      "e1 = err"
      by (auto split: sum.splits prod.splits bool.splits)
    with 2(1) [OF st [symmetric] refl walk(1,2,3,4)] show ?thesis by simp
  qed simp_all
next
  case (3 d reg resolved st)
  then show ?case by simp
next
  case (4 d reg resolved dep deps st)
  show ?case
  proof (cases "install_ordered d reg resolved (fst dep) st")
    case (Inl e1)
    with 4(3) have "e1 = err" by simp
    with 4(1) Inl show ?thesis by simp
  next
    case (Inr res)
    obtain b1 st1 where res: "res = (b1, st1)" by (cases res) auto
    show ?thesis
    proof (cases b1)
      case True
      with 4(3) Inr res have "install_deps d reg resolved deps st1 = Inl err" by simp
      from 4(2) [OF Inr [unfolded res] refl eqTrueI [OF True] this] show ?thesis .
    next
      case False
      with 4(3) Inr res show ?thesis by simp
    qed
  qed
qed

lemma install_ordered_succeeds:
  "install_ordered d reg resolved name st = Inr (b, st') \<Longrightarrow> closed_under_deps reg resolved \<Longrightarrow>
     dict_get reg name \<noteq> None \<Longrightarrow> dict_get resolved name \<noteq> None \<Longrightarrow> b"
  "install_deps d reg resolved deps st = Inr (b, st') \<Longrightarrow> closed_under_deps reg resolved \<Longrightarrow>
     \<forall>dep \<in> set deps. dict_get reg (fst dep) \<noteq> None \<and> dict_get resolved (fst dep) \<noteq> None \<Longrightarrow> b"
proof (induction d reg resolved name st and d reg resolved deps st
       arbitrary: b st' and b st' rule: install_ordered_install_deps.induct)
  case (1 reg resolved name st)
  then show ?case by simp
next
  case (2 d reg resolved name st)
  obtain pkgs installed visiting where st: "st = (pkgs, installed, visiting)"
    by (cases st) auto
  from 2(2) [unfolded st] show ?case
  proof (cases rule: install_ordered_SucE)
    case present
    then show ?thesis by simp
  next
    case unknown
    with 2(4) show ?thesis by simp
  next
    case (unresolved e)
    with 2(5) show ?thesis by simp
  next
    case (walk e version)
    from 2(3) walk(3,4) have
      ds: "\<forall>dep \<in> set (deps_of e version).
             dict_get reg (fst dep) \<noteq> None \<and> dict_get resolved (fst dep) \<noteq> None"
      unfolding closed_under_deps_def by blast
    show ?thesis
    proof (cases "install_deps d reg resolved (deps_of e version) (pkgs, installed, insert name visiting)")
      case (Inl e1)
      with walk(5) show ?thesis by simp
    next
      case (Inr res)
      obtain b1 st1 where res: "res = (b1, st1)" by (cases res) auto
      from 2(1) [OF st [symmetric] refl walk(1,2,3,4) Inr [unfolded res] 2(3) ds] have b1 .
      with walk(5) Inr res show ?thesis by (auto split: prod.splits)
    qed
  qed
next
  case (3 d reg resolved st)
  then show ?case by simp
next
  case (4 d reg resolved dep deps st)
  from 4(5) have hd: "dict_get reg (fst dep) \<noteq> None" "dict_get resolved (fst dep) \<noteq> None"
    and tl: "\<forall>dep \<in> set deps. dict_get reg (fst dep) \<noteq> None \<and> dict_get resolved (fst dep) \<noteq> None"
    by simp_all
  show ?case
  proof (cases "install_ordered d reg resolved (fst dep) st")
    case (Inl e1)
    with 4(3) show ?thesis by simp
  next
    case (Inr res)
    obtain b1 st1 where res: "res = (b1, st1)" by (cases res) auto
    from 4(1) [OF Inr [unfolded res] 4(4) hd] have b1: b1 .
    with 4(3) Inr res have "install_deps d reg resolved deps st1 = Inr (b, st')" by simp
    from 4(2) [OF Inr [unfolded res] refl eqTrueI [OF b1] this 4(4) tl] show ?thesis .
  qed
qed

lemma collect_root_terminates:
  assumes "deps_constrained reg" "depth_bound reg \<le> limit"
  shows "collect_requirements limit reg name c [] requirer \<noteq> Inl RecursionError"
proof -
  have "card (set (dep_edges reg)) < limit"
    using assms(2) by (simp add: depth_bound_def length_remdups_card_conv)
  moreover have "card (set (dep_edges reg) - recorded (add_requirement name c requirer []))
        \<le> card (set (dep_edges reg))"
    by (intro card_mono) auto
  ultimately have "card (set (dep_edges reg) - recorded (add_requirement name c requirer [])) < limit"
    by simp
  from collect_no_recursion_error(1) [OF this assms(1)] show ?thesis .
qed

lemma install_ordered_root_terminates:
  assumes "depth_bound reg \<le> limit"
  shows "install_ordered limit reg resolved name (pkgs, [], {}) \<noteq> Inl RecursionError"
proof -
  have "card (set (map fst reg)) < limit"
    using assms by (simp add: depth_bound_def length_remdups_card_conv del: set_map)
  then have "card (fst ` set reg - snd (snd (pkgs, ([] :: string list), ({} :: string set)))) < limit"
    by simp
  from install_ordered_no_recursion_error(1) [OF this] show ?thesis .
qed

text \<open>
  What stage 4 does when every dependency carries a constraint. Take a registry, with or
  without dependency cycles, whose versions are numeric and stored ascending and whose
  dependencies all carry a non-empty constraint with a numeric target, a registered root, a
  root constraint that is absent or such a constraint, and a depth of \<open>depth_bound\<close> nested
  calls. Then \<open>install\<close> returns without raising, and it succeeds exactly when it found no
  conflict.
\<close>

theorem resolution_succeeds_without_conflict:
  assumes nr: "numeric_registry (registry s)"
      and asc: "registry_ascending (registry s)"
      and ck: "cok constraint"
      and ne: "constraint \<noteq> Some []"
      and reg: "dict_in name (registry s)"
      and lim: "depth_bound (registry s) \<le> limit"
  shows "\<exists>s' success installed conflicts.
           install limit s name constraint rc = Inr (s', success, installed, conflicts) \<and>
           (success \<longleftrightarrow> conflicts = [])"
proof -
  let ?reg = "registry s"
  let ?A = "insert (name, constraint) (set (dep_edges ?reg))"
  have dc: "deps_constrained ?reg" using nr by (rule numeric_registry_constrained)
  \<comment> \<open>the collection returns\<close>
  obtain reqs where col: "collect_requirements limit ?reg name constraint [] ''root'' = Inr reqs"
  proof (cases "collect_requirements limit ?reg name constraint [] ''root''")
    case (Inl err)
    from collect_numeric_err(1) [OF Inl nr ck] collect_root_terminates [OF dc lim] Inl
    show ?thesis by simp
  next
    case (Inr r)
    with that show ?thesis .
  qed
  have dk: "distinct (map fst reqs)" using collect_distinct_keys(1) [OF col] by simp
  have "walk_inv ?reg [] {}"
    by (simp add: walk_inv_def recorded_Nil)
  from collect_walked(1) [OF col this]
  have wi: "walk_inv ?reg reqs {}" and wr: "walked ?reg reqs name constraint"
    and kr: "name \<in> fst ` set reqs" by simp_all
  have "recorded [] \<subseteq> ?A" by (simp add: recorded_Nil)
  from collect_origin(1) [OF col _ this] have org: "recorded reqs \<subseteq> ?A" by auto
  have "rows_or_root name []" by (simp add: rows_or_root_def)
  from collect_rows_or_root(1) [OF col dc this] have rr: "rows_or_root name reqs" by simp
  have rows: "rows_of reqs p = rws" if "(p, rws) \<in> set reqs" for p rws
    using that dk by (simp add: rows_of_def dict_get_def)
  have ncs: "list_all numeric_constraint (map snd rws)" if "(p, rws) \<in> set reqs" for p rws
  proof -
    have "numeric_constraint t" if t: "t \<in> snd ` set rws" for t
    proof -
      from t rows [OF \<open>(p, rws) \<in> set reqs\<close>] have "(p, Some t) \<in> recorded reqs"
        by (simp add: recorded_iff)
      with org have "(p, Some t) \<in> ?A" by blast
      then show ?thesis
      proof
        assume "(p, Some t) = (name, constraint)"
        with ck show ?thesis by (auto simp: cok_def)
      next
        assume "(p, Some t) \<in> set (dep_edges ?reg)"
        from numeric_registry_edge [OF nr this] show ?thesis by (simp add: constraint_ok_def)
      qed
    qed
    then show ?thesis by (auto simp: list_all_iff)
  qed
  \<comment> \<open>the selection returns\<close>
  have "list_all (\<lambda>pr. list_all numeric_constraint (map snd (snd pr))) reqs"
    unfolding list_all_iff [of _ reqs]
  proof
    fix pr
    assume "pr \<in> set reqs"
    then have "(fst pr, snd pr) \<in> set reqs" by simp
    from ncs [OF this] show "list_all numeric_constraint (map snd (snd pr))" .
  qed
  from select_numeric [OF nr this] obtain cf resolved where
    sel: "select_versions ?reg reqs [] [] = Inr (cf, resolved)" by fastforce
  show ?thesis
  proof (cases "cf = []")
    case False
    with reg col sel have "install limit s name constraint rc = Inr (s, False, [], cf)"
      by (simp add: install_def)
    with False show ?thesis by blast
  next
    case True
    from select_conflicts [OF sel] True have "filter (unsat ?reg) reqs = []" by simp
    then have ns: "\<not> unsat ?reg pr" if "pr \<in> set reqs" for pr
      using that by (auto simp: filter_empty_conv)
    have res: "\<exists>e v. dict_get ?reg p = Some e \<and>
                 first_compatible (rev (versions e)) (map snd rws) = Inr (Some v) \<and>
                 dict_get resolved p = Some v" if "(p, rws) \<in> set reqs" for p rws
      using select_resolved [OF sel dk that ns [OF that]] by simp
    have known: "dict_get ?reg p \<noteq> None \<and> dict_get resolved p \<noteq> None" if "p \<in> fst ` set reqs" for p
    proof -
      from that obtain rws where "(p, rws) \<in> set reqs" by auto
      from res [OF this] show ?thesis by auto
    qed
    have cl: "closed_under_deps ?reg resolved"
      unfolding closed_under_deps_def
    proof (intro allI impI ballI)
      fix n v e dep
      assume rv: "dict_get resolved n = Some v" and re: "dict_get ?reg n = Some e"
        and dep: "dep \<in> set (deps_of e v)"
      from select_new_keys [OF sel] rv have "n \<in> fst ` set reqs" by simp
      then obtain rws where mem: "(n, rws) \<in> set reqs" by auto
      from res [OF mem] re rv have
        fc: "first_compatible (rev (versions e)) (map snd rws) = Inr (Some v)" by auto
      have nv: "list_all numeric (versions e)" using nr re by (rule numeric_registry_versions)
      have av: "ascending (versions e)"
      proof -
        from re have "(n, e) \<in> set ?reg" by (auto simp: dict_get_def dest: map_of_SomeD)
        with asc show ?thesis by (auto simp: registry_ascending_def list_all_iff)
      qed
      have "\<exists>oc. find_version ?reg n oc = Inr (Some v) \<and> walked ?reg reqs n oc"
      proof (cases "rws = []")
        case True
        with fc have "first_compatible (rev (versions e)) [] = Inr (Some v)" by simp
        from first_compatible_no_rows [OF this] have vne: "versions e \<noteq> []" and vl: "v = last (versions e)"
          by simp_all
        from rr mem rows [OF mem] True have root: "n = name"
          by (force simp: rows_or_root_def)
        have "\<not> truthy constraint"
        proof
          assume "truthy constraint"
          from collect_records [OF col this] rows [OF mem] root True show False
            by (simp add: recorded_iff)
        qed
        with ne have "constraint = None" by (auto simp: truthy_def)
        with wr root find_version_None_last [OF re vne] vl show ?thesis by auto
      next
        case False
        then have "map snd rws \<noteq> []" by simp
        from selected_is_walked [OF fc this nv ncs [OF mem] av] obtain c ms where
          c: "c \<in> set (map snd rws)" and ms: "matching_versions (versions e) c = Inr ms"
            "ms \<noteq> []" "last ms = v" by blast
        from find_version_Some_numeric [OF re ms(1,2)] ms(3)
        have fv: "find_version ?reg n (Some c) = Inr (Some v)" by simp
        from c rows [OF mem] have "(n, Some c) \<in> recorded reqs" by (simp add: recorded_iff)
        with wi have "walked ?reg reqs n (Some c)" by (auto simp: walk_inv_def)
        with fv show ?thesis by blast
      qed
      then obtain oc where "find_version ?reg n oc = Inr (Some v)" "walked ?reg reqs n oc" by blast
      with re dep have "fst dep \<in> fst ` set reqs" unfolding walked_def by blast
      from known [OF this]
      show "dict_get ?reg (fst dep) \<noteq> None \<and> dict_get resolved (fst dep) \<noteq> None" .
    qed
    obtain b pk inst vis where
      io: "install_ordered limit ?reg resolved name (packages s, [], {}) = Inr (b, pk, inst, vis)"
    proof (cases "install_ordered limit ?reg resolved name (packages s, [], {})")
      case (Inl err)
      from install_ordered_err(1) [OF Inl] install_ordered_root_terminates [OF lim] Inl
      show ?thesis by simp
    next
      case (Inr r)
      with that show ?thesis by (cases r) auto
    qed
    from install_ordered_succeeds(1) [OF io cl] known [OF kr] have b by simp
    with reg col sel True io have
      "install limit s name constraint rc =
         Inr (s\<lparr>packages := pk, resolved_versions := resolved\<rparr>, True, inst, [])"
      by (simp add: install_def)
    then show ?thesis by blast
  qed
qed

theorem resolution_succeeds_without_conflict_witness:
  "numeric_registry (registry cycle_state) \<and>
   registry_ascending (registry cycle_state) \<and>
   cok None \<and> None \<noteq> Some ([] :: string) \<and>
   dict_in ''a'' (registry cycle_state) \<and>
   depth_bound (registry cycle_state) \<le> 10 \<and>
   (\<exists>s' success installed conflicts.
      install 10 cycle_state ''a'' None True = Inr (s', success, installed, conflicts) \<and>
      (success \<longleftrightarrow> conflicts = [])) \<and>
   install 10 cycle_state ''a'' None True =
     Inr (cycle_state\<lparr>packages := [(''b'', ''1.0.0''), (''a'', ''1.0.0'')],
                      resolved_versions := [(''a'', ''1.0.0''), (''b'', ''1.0.0'')]\<rparr>,
          True, [''b==1.0.0'', ''a==1.0.0''], [])"
proof -
  have h1: "numeric_registry (registry cycle_state)" by code_simp
  have h2: "registry_ascending (registry cycle_state)" by code_simp
  have h3: "cok None" by code_simp
  have h4: "None \<noteq> Some ([] :: string)" by simp
  have h5: "dict_in ''a'' (registry cycle_state)" by code_simp
  have h6: "depth_bound (registry cycle_state) \<le> 10" by code_simp
  have h7: "install 10 cycle_state ''a'' None True =
     Inr (cycle_state\<lparr>packages := [(''b'', ''1.0.0''), (''a'', ''1.0.0'')],
                      resolved_versions := [(''a'', ''1.0.0''), (''b'', ''1.0.0'')]\<rparr>,
          True, [''b==1.0.0'', ''a==1.0.0''], [])" by code_simp
  from resolution_succeeds_without_conflict [OF h1 h2 h3 h4 h5 h6, of True] h1 h2 h3 h5 h6 h7
  show ?thesis by blast
qed

end
